theory Spec2Isabelle
  imports Main "HOL-Library.Word"
begin

unbundle bit_operations_syntax

section \<open>Data model\<close>

text \<open>
  The shard files of \<^verbatim>\<open>data/omgprot50.py\<close> and \<^verbatim>\<open>dataloading.py\<close> are byte sequences.
  The writer produces \<^verbatim>\<open>np.uint16\<close> tokens, the reader fills a \<^verbatim>\<open>torch.uint8\<close> buffer. A disk
  maps the path of a file to its content. Python's exceptions are values of \<open>error\<close>; an
  \<^verbatim>\<open>assert\<close> carries its message.
\<close>

type_synonym byte = "8 word"
type_synonym token = "16 word"
type_synonym path = string
type_synonym disk = "path \<Rightarrow> byte list option"

datatype error =
    AssertionError string
  | RuntimeError
  | ValueError
  | AttributeError
  | UnboundLocalError
  | ZeroDivisionError
  | IndexError

subsection \<open>Little-endian layout of the numpy and torch buffers\<close>

definition int32_bytes :: "32 word \<Rightarrow> byte list" where
  "int32_bytes w = [ucast w, ucast (drop_bit 8 w), ucast (drop_bit 16 w), ucast (drop_bit 24 w)]"

definition uint16_bytes :: "token \<Rightarrow> byte list" where
  "uint16_bytes t = [ucast t, ucast (drop_bit 8 t)]"

definition int32_of_bytes :: "byte \<Rightarrow> byte \<Rightarrow> byte \<Rightarrow> byte \<Rightarrow> 32 word" where
  "int32_of_bytes b0 b1 b2 b3 =
     ucast b0 OR push_bit 8 (ucast b1) OR push_bit 16 (ucast b2) OR push_bit 24 (ucast b3)"

text \<open>\<^verbatim>\<open>toks.tobytes()\<close> of a \<^verbatim>\<open>uint16\<close> array.\<close>

definition tobytes :: "token list \<Rightarrow> byte list" where
  "tobytes toks = concat (map uint16_bytes toks)"

section \<open>Shard writer (\<^verbatim>\<open>write_datafile\<close>)\<close>

text \<open>
  \<^verbatim>\<open>header = np.zeros(256, dtype=np.int32)\<close> with the magic number, the version and the
  token count in its first three entries.
\<close>

definition header :: "nat \<Rightarrow> 32 word list" where
  "header n = [20240520, 1, of_nat n] @ replicate 253 0"

definition header_bytes :: "nat \<Rightarrow> byte list" where
  "header_bytes n = concat (map int32_bytes (header n))"

definition write_datafile :: "disk \<Rightarrow> path \<Rightarrow> token list \<Rightarrow> error + disk" where
  "write_datafile d filename toks =
     (if \<not> length toks < 2 ^ 31 then Inl (AssertionError ''token count too large'')
      else Inr (d(filename \<mapsto> header_bytes (length toks) @ tobytes toks)))"

section \<open>Shard reader (\<^verbatim>\<open>_load_data_shard\<close>)\<close>

text \<open>The \<open>i\<close>-th \<^verbatim>\<open>int32\<close> of the header that \<^verbatim>\<open>torch.from_file\<close> maps.\<close>

definition header_word :: "byte list \<Rightarrow> nat \<Rightarrow> 32 word" where
  "header_word bytes i =
     int32_of_bytes (bytes ! (4 * i)) (bytes ! (4 * i + 1)) (bytes ! (4 * i + 2)) (bytes ! (4 * i + 3))"

text \<open>
  \<^verbatim>\<open>torch.from_file(file, False, 256, dtype=torch.int32)\<close> raises a \<^verbatim>\<open>RuntimeError\<close> when
  the file is missing or shorter than the 1024 bytes it maps, \<^verbatim>\<open>torch.empty\<close> raises one on
  a negative size. \<^verbatim>\<open>f.readinto\<close> fills the \<^verbatim>\<open>num_tokens\<close> bytes of the \<^verbatim>\<open>uint8\<close> buffer
  as far as the file goes and returns how many bytes it read.
\<close>

definition load_data_shard :: "disk \<Rightarrow> path \<Rightarrow> error + byte list" where
  "load_data_shard d file =
     (case d file of
        None \<Rightarrow> Inl RuntimeError
      | Some bytes \<Rightarrow>
          if length bytes < 1024 then Inl RuntimeError
          else if header_word bytes 0 \<noteq> 20240520
            then Inl (AssertionError ''magic number mismatch in the data .bin file'')
          else if header_word bytes 1 \<noteq> 1 then Inl (AssertionError ''unsupported version'')
          else
            let num_tokens = sint (header_word bytes 2) in
            if num_tokens < 0 then Inl RuntimeError
            else
              let tokens = take (nat num_tokens) (drop (256 * 4) bytes);
                  nbytes = int (length tokens)
              in if nbytes \<noteq> num_tokens
                 then Inl (AssertionError ''number of tokens read does not match header?'')
                 else Inr tokens)"

text \<open>The spec's FormatError is one of the three assertions of the reader.\<close>

fun is_FormatError :: "error + 'a \<Rightarrow> bool" where
  "is_FormatError (Inl (AssertionError msg)) = True"
| "is_FormatError r = False"

section \<open>Tokenization driver (\<^verbatim>\<open>tokenize_fw\<close>)\<close>

text \<open>
  The driver keeps the index of the shard being filled, the preallocated buffer
  \<^verbatim>\<open>all_tokens_np\<close> of \<^verbatim>\<open>shard_size\<close> tokens, the number of tokens in it, the progress bar
  (\<open>None\<close> for Python's \<^verbatim>\<open>None\<close>, otherwise the count shown) and the disk it writes to.
\<close>

record writer_state =
  shard_index :: nat
  all_tokens_np :: "token list"
  token_count :: nat
  progress_bar :: "nat option"
  fs :: disk

text \<open>
  The numpy assignment \<^verbatim>\<open>buf[lo:hi] = xs\<close> for \<open>0 \<le> lo\<close>, \<open>0 \<le> hi\<close>: the slice is clipped
  to the buffer, a right-hand side of the slice's length is copied, one of length 1 is
  broadcast, and anything else raises \<^verbatim>\<open>ValueError\<close>.
\<close>

definition assign_slice :: "'a list \<Rightarrow> nat \<Rightarrow> nat \<Rightarrow> 'a list \<Rightarrow> error + 'a list" where
  "assign_slice buf lo hi xs =
     (let lo' = min lo (length buf); hi' = max lo' (min hi (length buf)) in
      if length xs = hi' - lo' then Inr (take lo' buf @ xs @ drop hi' buf)
      else if length xs = 1 then Inr (take lo' buf @ replicate (hi' - lo') (hd xs) @ drop hi' buf)
      else Inl ValueError)"

text \<open>
  One iteration of the loop over the tokenized documents. \<open>shard_name\<close> is the f-string
  that names the shard file of an index for the split. The token count never exceeds
  \<open>shard_size\<close> in a state the loop reaches, so \<open>remainder\<close> is a natural number.
\<close>

definition tokenize_step ::
  "nat \<Rightarrow> (nat \<Rightarrow> path) \<Rightarrow> writer_state \<Rightarrow> token list \<Rightarrow> error + writer_state" where
  "tokenize_step shard_size shard_name st tokens =
     (if token_count st + length tokens < shard_size then
        (case assign_slice (all_tokens_np st) (token_count st)
                (token_count st + length tokens) tokens of
           Inl e \<Rightarrow> Inl e
         | Inr buf \<Rightarrow>
             Inr (st\<lparr>all_tokens_np := buf,
                     token_count := token_count st + length tokens,
                     progress_bar :=
                       Some ((case progress_bar st of None \<Rightarrow> 0 | Some n \<Rightarrow> n) + length tokens)\<rparr>))
      else
        let remainder = shard_size - token_count st in
        case progress_bar st of
          None \<Rightarrow> Inl AttributeError
        | Some n \<Rightarrow>
           (case assign_slice (all_tokens_np st) (token_count st)
                   (token_count st + remainder) (take remainder tokens) of
              Inl e \<Rightarrow> Inl e
            | Inr buf \<Rightarrow>
               (case write_datafile (fs st) (shard_name (shard_index st)) buf of
                  Inl e \<Rightarrow> Inl e
                | Inr d \<Rightarrow>
                   (case assign_slice buf 0 (length tokens - remainder) (drop remainder tokens) of
                      Inl e \<Rightarrow> Inl e
                    | Inr buf' \<Rightarrow>
                        Inr (st\<lparr>fs := d,
                                shard_index := shard_index st + 1,
                                progress_bar := None,
                                all_tokens_np := buf',
                                token_count := length tokens - remainder\<rparr>)))))"

fun tokenize_loop ::
  "nat \<Rightarrow> (nat \<Rightarrow> path) \<Rightarrow> writer_state \<Rightarrow> token list list \<Rightarrow> error + writer_state" where
  "tokenize_loop shard_size shard_name st [] = Inr st"
| "tokenize_loop shard_size shard_name st (tokens # docs) =
     (case tokenize_step shard_size shard_name st tokens of
        Inl e \<Rightarrow> Inl e
      | Inr st' \<Rightarrow> tokenize_loop shard_size shard_name st' docs)"

text \<open>
  \<^verbatim>\<open>tokenize_fw\<close> on the documents as the tokenizer returns them, in order. The buffer of
  \<^verbatim>\<open>np.empty\<close> starts with arbitrary content, here zeros; no shard is written from a
  position that was not assigned before.
\<close>

definition tokenize_fw ::
  "nat \<Rightarrow> (nat \<Rightarrow> path) \<Rightarrow> disk \<Rightarrow> token list list \<Rightarrow> error + writer_state" where
  "tokenize_fw shard_size shard_name d docs =
     (case tokenize_loop shard_size shard_name
             \<lparr>shard_index = 0, all_tokens_np = replicate shard_size 0, token_count = 0,
              progress_bar = None, fs = d\<rparr> docs of
        Inl e \<Rightarrow> Inl e
      | Inr st \<Rightarrow>
          if token_count st \<noteq> 0 then
            (case write_datafile (fs st) (shard_name (shard_index st))
                    (take (token_count st) (all_tokens_np st)) of
               Inl e \<Rightarrow> Inl e
             | Inr d' \<Rightarrow> Inr (st\<lparr>fs := d'\<rparr>))
          else Inr st)"

section \<open>Single-stream loader (\<^verbatim>\<open>DistributedDataLoader\<close>)\<close>

record loader =
  world_size :: nat
  rank :: nat
  files :: "path list"
  batch_size :: nat
  local_batch_size :: nat
  next_shard :: nat
  pos :: nat
  tokens :: "byte list"

text \<open>
  \<^verbatim>\<open>self.advance()\<close> is dispatched on the class of the loader: \<open>reset\<close> and \<open>next_batch\<close>
  take the \<open>advance\<close> of the class as an argument.
\<close>

definition advance :: "disk \<Rightarrow> 'a loader_scheme \<Rightarrow> error + 'a loader_scheme" where
  "advance d s =
     (if \<not> next_shard s < length (files s) then Inl IndexError
      else case load_data_shard d (files s ! next_shard s) of
             Inl e \<Rightarrow> Inl e
           | Inr toks \<Rightarrow>
               Inr (s\<lparr>pos := 0, tokens := toks,
                      next_shard := (next_shard s + 1) mod length (files s)\<rparr>))"

definition reset ::
  "('a loader_scheme \<Rightarrow> error + 'a loader_scheme) \<Rightarrow> 'a loader_scheme \<Rightarrow> error + 'a loader_scheme" where
  "reset adv s = adv (s\<lparr>next_shard := 0\<rparr>)"

text \<open>
  \<^verbatim>\<open>self.tokens[a:][:n]\<close> clips at the end of the buffer; \<^verbatim>\<open>buf.to(dtype=torch.int32)\<close>
  widens each byte.
\<close>

definition next_batch ::
  "('a loader_scheme \<Rightarrow> error + 'a loader_scheme) \<Rightarrow> 'a loader_scheme
     \<Rightarrow> error + (32 word list \<times> 'a loader_scheme)" where
  "next_batch adv s =
     (let buf = take (local_batch_size s) (drop (pos s + rank s * local_batch_size s) (tokens s));
          sequence = map ucast buf;
          s1 = s\<lparr>pos := pos s + batch_size s\<rparr>
      in if pos s1 + batch_size s1 \<ge> length (tokens s1)
         then (case adv s1 of Inl e \<Rightarrow> Inl e | Inr s2 \<Rightarrow> Inr (sequence, s2))
         else Inr (sequence, s1))"

text \<open>The constructor; \<open>fls\<close> is the sorted result of the glob.\<close>

definition DistributedDataLoader ::
  "disk \<Rightarrow> path list \<Rightarrow> nat \<Rightarrow> nat \<Rightarrow> nat \<Rightarrow> error + loader" where
  "DistributedDataLoader d fls bs rk ws =
     (if ws = 0 then Inl ZeroDivisionError
      else if bs mod ws \<noteq> 0 then Inl (AssertionError [])
      else reset (advance d)
             \<lparr>world_size = ws, rank = rk, files = fls, batch_size = bs,
              local_batch_size = bs div ws, next_shard = 0, pos = 0, tokens = []\<rparr>)"

section \<open>Padded loader (\<^verbatim>\<open>DistributedPaddedDataLoader\<close>)\<close>

record padded_loader = loader +
  cls_id :: byte
  eos_id :: byte
  pad_id :: byte
  leftover_tokens :: "byte list"
  max_epochs :: int

text \<open>Python's \<^verbatim>\<open>xs[a:b]\<close> for \<open>0 \<le> a\<close> and \<open>0 \<le> b\<close>.\<close>

definition py_slice :: "'a list \<Rightarrow> nat \<Rightarrow> nat \<Rightarrow> 'a list" where
  "py_slice xs a b = take (b - a) (drop a xs)"

text \<open>\<^verbatim>\<open>(raw_tokens == self.eos_id).nonzero(as_tuple=True)[0]\<close>\<close>

definition eos_positions_of :: "'a list \<Rightarrow> 'a \<Rightarrow> nat list" where
  "eos_positions_of raw_tokens eos = filter (\<lambda>i. raw_tokens ! i = eos) [0..<length raw_tokens]"

text \<open>The sample of iteration \<open>i\<close> of the loop.\<close>

definition sample_at :: "'a list \<Rightarrow> nat list \<Rightarrow> nat \<Rightarrow> 'a list" where
  "sample_at raw_tokens eos_positions i =
     (let curr_eos = eos_positions ! i;
          prev_eos_plus_one = (if i = 0 then 0 else eos_positions ! (i - 1) + 1)
      in py_slice raw_tokens prev_eos_plus_one (curr_eos + 1))"

text \<open>
  \<^verbatim>\<open>torch.split\<close> with a positive size, and \<^verbatim>\<open>torch.chunk\<close>: pieces of
  \<open>ceil (len / chunks)\<close> elements, the last one shorter when they do not divide the
  tensor; an empty tensor gives \<open>chunks\<close> empty pieces; \<open>chunks = 0\<close> raises.
\<close>

function split_size :: "'a list \<Rightarrow> nat \<Rightarrow> 'a list list" where
  "split_size xs n = (if n = 0 \<or> length xs \<le> n then [xs] else take n xs # split_size (drop n xs) n)"
  by pat_completeness auto
termination
  by (relation "measure (\<lambda>(xs, n). length xs)") auto

declare split_size.simps [simp del]

definition chunk :: "'a list \<Rightarrow> nat \<Rightarrow> error + 'a list list" where
  "chunk xs chunks =
     (if chunks = 0 then Inl RuntimeError
      else let split = (length xs + chunks - 1) div chunks
           in if split = 0 then Inr (replicate chunks []) else Inr (split_size xs split))"

text \<open>
  The inner loop over the pieces of an oversized sample: each piece, then
  \<^verbatim>\<open>torch.full((num_pad,), pad_id)\<close>, which raises on a negative size.
\<close>

fun split_rows :: "nat \<Rightarrow> 'a \<Rightarrow> 'a list list \<Rightarrow> error + 'a list list" where
  "split_rows lbs pad [] = Inr []"
| "split_rows lbs pad (split_sample # rest) =
     (if lbs < length split_sample then Inl RuntimeError
      else case split_rows lbs pad rest of
             Inl e \<Rightarrow> Inl e
           | Inr rows \<Rightarrow> Inr (split_sample # replicate (lbs - length split_sample) pad # rows))"

text \<open>
  One iteration of the loop over the samples, on the list of processed chunks and the
  running row length. The warning printed for a sample that does not start with CLS reads
  \<^verbatim>\<open>sample[0]\<close> and changes nothing else.
\<close>

definition pack_step ::
  "nat \<Rightarrow> 'a \<Rightarrow> 'a list list \<times> nat \<Rightarrow> 'a list \<Rightarrow> error + ('a list list \<times> nat)" where
  "pack_step lbs pad st sample =
     (case st of (processed_chunks, curr_batch_len) \<Rightarrow>
        if sample = [] then Inl IndexError
        else if \<not> curr_batch_len < lbs
          then Inl (AssertionError ''(curr_batch_len, local_batch_size)'')
        else
          let padded = (if length sample + curr_batch_len \<ge> lbs
                        then (processed_chunks @ [replicate (lbs - curr_batch_len) pad], 0)
                        else (processed_chunks, curr_batch_len))
          in if length sample > lbs then
               (case chunk sample (length sample div lbs + 1) of
                  Inl e \<Rightarrow> Inl e
                | Inr splits \<Rightarrow>
                   (case split_rows lbs pad splits of
                      Inl e \<Rightarrow> Inl e
                    | Inr rows \<Rightarrow> Inr (fst padded @ rows, 0)))
             else
               let curr_batch_len' = snd padded + length sample
               in Inr (fst padded @ [sample],
                       if curr_batch_len' = lbs then 0 else curr_batch_len'))"

fun pack_loop ::
  "nat \<Rightarrow> 'a \<Rightarrow> 'a list list \<times> nat \<Rightarrow> 'a list list \<Rightarrow> error + ('a list list \<times> nat)" where
  "pack_loop lbs pad st [] = Inr st"
| "pack_loop lbs pad st (sample # rest) =
     (case pack_step lbs pad st sample of
        Inl e \<Rightarrow> Inl e
      | Inr st' \<Rightarrow> pack_loop lbs pad st' rest)"

definition samples_of :: "'a list \<Rightarrow> 'a \<Rightarrow> 'a list list" where
  "samples_of raw_tokens eos =
     (let eos_positions = eos_positions_of raw_tokens eos
      in map (sample_at raw_tokens eos_positions) [0..<length eos_positions])"

text \<open>The epoch gate at the head of \<^verbatim>\<open>advance\<close>: the combined buffer and the new counter.\<close>

definition load_raw :: "disk \<Rightarrow> padded_loader \<Rightarrow> error + (byte list \<times> padded_loader)" where
  "load_raw d s =
     (if length (files s) = 0 then Inl ZeroDivisionError
      else if int (next_shard s div length (files s)) < max_epochs s then
        (case load_data_shard d (files s ! (next_shard s mod length (files s))) of
           Inl e \<Rightarrow> Inl e
         | Inr raw_tokens \<Rightarrow>
             Inr (leftover_tokens s @ raw_tokens, s\<lparr>next_shard := next_shard s + 1\<rparr>))
      else Inr (leftover_tokens s, s))"

text \<open>
  \<^verbatim>\<open>random.seed(self.next_shard); random.shuffle(self.files)\<close>: the seeded shuffle of
  Python's library is the parameter \<open>shuffle\<close>.
\<close>

definition reshuffle :: "(nat \<Rightarrow> path list \<Rightarrow> path list) \<Rightarrow> padded_loader \<Rightarrow> padded_loader" where
  "reshuffle shuffle s =
     (if next_shard s mod length (files s) = 0
      then s\<lparr>files := shuffle (next_shard s) (files s)\<rparr> else s)"

text \<open>
  Segmentation, packing and carry-over. After the loop \<^verbatim>\<open>curr_eos\<close> is the last EOS
  position; with no EOS the name was never bound and reading it raises.
\<close>

definition pack_raw :: "padded_loader \<Rightarrow> byte list \<Rightarrow> error + padded_loader" where
  "pack_raw s raw_tokens =
     (let eos_positions = eos_positions_of raw_tokens (eos_id s) in
      case pack_loop (local_batch_size s) (pad_id s) ([], 0) (samples_of raw_tokens (eos_id s)) of
        Inl e \<Rightarrow> Inl e
      | Inr (processed_chunks, curr_batch_len) \<Rightarrow>
          if eos_positions = [] then Inl UnboundLocalError
          else Inr (s\<lparr>leftover_tokens := drop (last eos_positions + 1) raw_tokens,
                      tokens := concat processed_chunks\<rparr>))"

definition padded_advance ::
  "disk \<Rightarrow> (nat \<Rightarrow> path list \<Rightarrow> path list) \<Rightarrow> padded_loader \<Rightarrow> error + padded_loader" where
  "padded_advance d shuffle s =
     (case load_raw d (s\<lparr>pos := 0\<rparr>) of
        Inl e \<Rightarrow> Inl e
      | Inr (raw_tokens, s1) \<Rightarrow>
          if raw_tokens = [] then Inr (s1\<lparr>leftover_tokens := [], tokens := []\<rparr>)
          else pack_raw (reshuffle shuffle s1) raw_tokens)"

text \<open>The constructor of the padded loader.\<close>

definition DistributedPaddedDataLoader ::
  "disk \<Rightarrow> (nat \<Rightarrow> path list \<Rightarrow> path list) \<Rightarrow> path list \<Rightarrow> nat \<Rightarrow> nat \<Rightarrow> nat
     \<Rightarrow> byte \<Rightarrow> byte \<Rightarrow> byte \<Rightarrow> int \<Rightarrow> error + padded_loader" where
  "DistributedPaddedDataLoader d shuffle fls seq_len process_rank num_processes cls eos pad epochs =
     (if num_processes = 0 then Inl ZeroDivisionError
      else if seq_len mod num_processes \<noteq> 0 then Inl (AssertionError [])
      else reset (padded_advance d shuffle)
             \<lparr>world_size = num_processes, rank = process_rank, files = fls, batch_size = seq_len,
              local_batch_size = seq_len div num_processes, next_shard = 0, pos = 0, tokens = [],
              cls_id = cls, eos_id = eos, pad_id = pad, leftover_tokens = [], max_epochs = epochs\<rparr>)"

section \<open>Notions used to state the properties of the packing\<close>

text \<open>
  The rows that the inner loop emits for the pieces of an oversized sample: every piece
  followed by the PAD tokens that fill its row.
\<close>

definition padded_rows :: "nat \<Rightarrow> 'a \<Rightarrow> 'a list list \<Rightarrow> 'a list list" where
  "padded_rows lbs pad pieces = concat (map (\<lambda>c. [c, replicate (lbs - length c) pad]) pieces)"

text \<open>
  The piece size of \<^verbatim>\<open>torch.chunk(sample, len(sample) // local_batch_size + 1)\<close> for a
  sample of \<open>len\<close> tokens: \<open>len\<close> divided by the number of chunks asked for, rounded up.
\<close>

definition chunk_len :: "nat \<Rightarrow> nat \<Rightarrow> nat" where
  "chunk_len len lbs = (len + (len div lbs + 1) - 1) div (len div lbs + 1)"

text \<open>
  An instance of the \<open>shuffle\<close> parameter under which a reshuffle of two or more files is
  visible in the file list: whatever the seed, the order is reversed.
\<close>

definition reverse_order :: "nat \<Rightarrow> path list \<Rightarrow> path list" where
  "reverse_order seed fls = rev fls"

text \<open>
  The loader that the constructor builds from the arguments a padded loader \<open>s\<close> was built
  from, on the file list as \<open>s\<close> holds it.
\<close>

definition fresh_loader ::
  "disk \<Rightarrow> (nat \<Rightarrow> path list \<Rightarrow> path list) \<Rightarrow> padded_loader \<Rightarrow> error + padded_loader" where
  "fresh_loader d shuffle s =
     DistributedPaddedDataLoader d shuffle (files s) (batch_size s) (rank s) (world_size s)
       (cls_id s) (eos_id s) (pad_id s) (max_epochs s)"

section \<open>Facts about the shard format\<close>

lemma int32_of_bytes_int32_bytes:
  "int32_of_bytes (ucast w) (ucast (drop_bit 8 w)) (ucast (drop_bit 16 w)) (ucast (drop_bit 24 w)) = w"
  unfolding int32_of_bytes_def
proof (rule bit_word_eqI)
  fix n assume n: "n < LENGTH(32)"
  consider "n < 8" | "8 \<le> n" "n < 16" | "16 \<le> n" "n < 24" | "24 \<le> n" "n < 32"
    using n by fastforce
  then show "bit (ucast (ucast w :: byte) OR push_bit 8 (ucast (ucast (drop_bit 8 w) :: byte)) OR
       push_bit 16 (ucast (ucast (drop_bit 16 w) :: byte)) OR
       push_bit 24 (ucast (ucast (drop_bit 24 w) :: byte)) :: 32 word) n = bit w n"
    by cases (auto simp add: bit_simps)
qed

lemma length_int32_bytes [simp]: "length (int32_bytes w) = 4"
  by (simp add: int32_bytes_def)

lemma length_header_bytes [simp]: "length (header_bytes n) = 1024"
  by (simp add: header_bytes_def header_def length_concat o_def sum_list_replicate)

lemma length_tobytes [simp]: "length (tobytes toks) = 2 * length toks"
  by (induction toks) (simp_all add: tobytes_def uint16_bytes_def)

lemma header_bytes_split:
  "header_bytes n = int32_bytes 20240520 @ int32_bytes 1 @ int32_bytes (of_nat n)
      @ concat (map int32_bytes (replicate 253 0))"
  by (simp add: header_bytes_def header_def)

lemma header_word_0 [simp]: "header_word (header_bytes n @ payload) 0 = 20240520"
  by (simp add: header_word_def header_bytes_split int32_bytes_def int32_of_bytes_def)

lemma header_word_1 [simp]: "header_word (header_bytes n @ payload) 1 = 1"
  by (simp add: header_word_def header_bytes_split int32_bytes_def int32_of_bytes_def)

lemma header_word_Suc_0 [simp]: "header_word (header_bytes n @ payload) (Suc 0) = 1"
  using header_word_1 [of n payload] by simp

lemma header_word_2 [simp]: "header_word (header_bytes n @ payload) 2 = of_nat n"
  by (simp add: header_word_def header_bytes_split int32_bytes_def int32_of_bytes_int32_bytes)

lemma sint_count [simp]: "n < 2 ^ 31 \<Longrightarrow> sint (of_nat n :: 32 word) = int n"
  by (simp add: signed_of_nat signed_take_bit_int_eq_self)

text \<open>
  What the reader returns on a file with a well-formed header that declares \<open>n\<close> tokens:
  the first \<open>n\<close> bytes that follow the header.
\<close>

lemma load_data_shard_header_bytes:
  assumes "d file = Some (header_bytes n @ payload)" and "n < 2 ^ 31"
  shows "load_data_shard d file =
           (if length payload < n
            then Inl (AssertionError ''number of tokens read does not match header?'')
            else Inr (take n payload))"
  using assms by (auto simp add: load_data_shard_def Let_def)

lemma write_then_load:
  assumes "length toks < 2 ^ 31"
  shows "\<exists>d'. write_datafile d file toks = Inr d' \<and>
           load_data_shard d' file = Inr (take (length toks) (tobytes toks))"
  using assms by (simp add: write_datafile_def load_data_shard_header_bytes)

section \<open>Claims about the shard format\<close>

text \<open>
  Claim C1 (round trip of the shard format): writing a token sequence with
  \<^verbatim>\<open>write_datafile\<close> and reading the file back with \<^verbatim>\<open>_load_data_shard\<close> should give the
  original tokens. The writer stores every token in two bytes, the reader fills a buffer of
  as many single bytes as the header counts tokens (lemma \<open>write_then_load\<close>): for the two
  tokens 1 and 2 it returns the bytes 1 and 0, the two halves of the first token.
\<close>

theorem shard_round_trip_reads_half:
  "(case write_datafile Map.empty ''shard.bin'' [1, 2] of
      Inl e \<Rightarrow> Inl e
    | Inr d \<Rightarrow> load_data_shard d ''shard.bin'') = Inr [1, 0]"
  by (simp add: write_datafile_def load_data_shard_header_bytes tobytes_def uint16_bytes_def)

text \<open>
  Claim C5 (validation by the shard reader), as amended. A file that is missing or shorter
  than the 1024 bytes of a header makes \<^verbatim>\<open>torch.from_file\<close> raise a \<^verbatim>\<open>RuntimeError\<close> before
  any check of the reader runs. On a file that holds a whole header the reader fails with
  one of its assertions when the first header word is not 20240520 or the second is not 1,
  and when fewer bytes follow the header than the header declares. Every failure is a
  \<^verbatim>\<open>RuntimeError\<close> or one of these assertions. Whenever the reader returns, the header was
  valid and the result holds exactly the declared number of elements of the buffer, read in
  order from the bytes that follow the header.
\<close>

theorem load_data_shard_validation:
  "(d file = None \<or> (\<exists>bytes. d file = Some bytes \<and> length bytes < 1024)
       \<longrightarrow> load_data_shard d file = Inl RuntimeError)
   \<and> (\<forall>bytes. d file = Some bytes \<and> 1024 \<le> length bytes \<and>
       (header_word bytes 0 \<noteq> 20240520 \<or> header_word bytes 1 \<noteq> 1)
       \<longrightarrow> is_FormatError (load_data_shard d file))
   \<and> (\<forall>bytes. d file = Some bytes \<and> 1024 \<le> length bytes \<and>
       0 \<le> sint (header_word bytes 2) \<and> int (length bytes - 1024) < sint (header_word bytes 2)
       \<longrightarrow> is_FormatError (load_data_shard d file))
   \<and> (\<forall>e. load_data_shard d file = Inl e \<longrightarrow> e = RuntimeError \<or> (\<exists>msg. e = AssertionError msg))
   \<and> (\<forall>toks. load_data_shard d file = Inr toks \<longrightarrow>
        (\<exists>bytes. d file = Some bytes \<and> 1024 \<le> length bytes \<and>
           header_word bytes 0 = 20240520 \<and> header_word bytes 1 = 1 \<and>
           int (length toks) = sint (header_word bytes 2) \<and>
           toks = take (length toks) (drop 1024 bytes)))"
  by (auto simp add: load_data_shard_def Let_def split: option.splits if_splits)

theorem load_data_shard_validation_witness:
  "load_data_shard [''empty.bin'' \<mapsto> []] ''empty.bin'' = Inl RuntimeError
   \<and> is_FormatError (load_data_shard [''bad.bin'' \<mapsto> replicate 1024 0] ''bad.bin'')
   \<and> is_FormatError (load_data_shard [''cut.bin'' \<mapsto> header_bytes 3 @ [0, 5]] ''cut.bin'')
   \<and> (\<exists>bytes. [''ok.bin'' \<mapsto> header_bytes 3 @ [0, 5, 2]] ''ok.bin'' = Some bytes \<and>
         1024 \<le> length bytes \<and> header_word bytes 0 = 20240520 \<and> header_word bytes 1 = 1 \<and>
         int (length [0, 5, 2 :: byte]) = sint (header_word bytes 2) \<and>
         [0, 5, 2] = take (length [0, 5, 2 :: byte]) (drop 1024 bytes))"
proof -
  let ?empty = "[''empty.bin'' \<mapsto> ([] :: byte list)]"
  let ?bad = "[''bad.bin'' \<mapsto> replicate 1024 (0 :: byte)]"
  let ?cut = "[''cut.bin'' \<mapsto> header_bytes 3 @ [0, 5 :: byte]]"
  let ?ok = "[''ok.bin'' \<mapsto> header_bytes 3 @ [0, 5, 2 :: byte]]"
  have empty: "load_data_shard ?empty ''empty.bin'' = Inl RuntimeError"
    using load_data_shard_validation [of ?empty "''empty.bin''"] by simp
  have "header_word (replicate 1024 0) 0 \<noteq> 20240520"
    by (simp add: header_word_def int32_of_bytes_def)
  then have bad: "is_FormatError (load_data_shard ?bad ''bad.bin'')"
    using load_data_shard_validation [of ?bad "''bad.bin''"] by simp
  have cut: "is_FormatError (load_data_shard ?cut ''cut.bin'')"
    using load_data_shard_validation [of ?cut "''cut.bin''"] by simp
  have "load_data_shard ?ok ''ok.bin'' = Inr [0, 5, 2]"
    by (simp add: load_data_shard_header_bytes [where n = 3 and payload = "[0, 5, 2]"])
  then have ok: "\<exists>bytes. ?ok ''ok.bin'' = Some bytes \<and>
         1024 \<le> length bytes \<and> header_word bytes 0 = 20240520 \<and> header_word bytes 1 = 1 \<and>
         int (length [0, 5, 2 :: byte]) = sint (header_word bytes 2) \<and>
         [0, 5, 2] = take (length [0, 5, 2 :: byte]) (drop 1024 bytes)"
    using load_data_shard_validation [of ?ok "''ok.bin''"] by blast
  from empty bad cut ok show ?thesis by blast
qed

text \<open>
  Claim C5 as stated, for every input file, fails on a file that stops one byte short of a
  whole header: its first four bytes are not the magic number, and the reader fails with the
  \<^verbatim>\<open>RuntimeError\<close> of \<^verbatim>\<open>torch.from_file\<close>, which is none of its assertions.
\<close>

theorem short_file_fails_before_the_checks:
  "header_word (replicate 1023 0) 0 \<noteq> 20240520
   \<and> load_data_shard [''short.bin'' \<mapsto> replicate 1023 0] ''short.bin'' = Inl RuntimeError
   \<and> \<not> is_FormatError (load_data_shard [''short.bin'' \<mapsto> replicate 1023 0] ''short.bin'')"
  by (simp add: load_data_shard_def header_word_def int32_of_bytes_def)

section \<open>Facts about splitting and chunking\<close>

lemma concat_split_size: "concat (split_size xs n) = xs"
proof (induction xs n rule: split_size.induct)
  case (1 xs n)
  show ?case
  proof (cases "n = 0 \<or> length xs \<le> n")
    case True
    then show ?thesis by (subst split_size.simps) simp
  next
    case False
    with 1 have "concat (split_size (drop n xs) n) = drop n xs" by simp
    with False show ?thesis by (subst split_size.simps) simp
  qed
qed

lemma split_size_length_le: "0 < n \<Longrightarrow> c \<in> set (split_size xs n) \<Longrightarrow> length c \<le> n"
proof (induction xs n rule: split_size.induct)
  case (1 xs n)
  show ?case
  proof (cases "length xs \<le> n")
    case True
    with "1.prems" show ?thesis by (subst (asm) split_size.simps) simp
  next
    case False
    with "1.prems" have "c = take n xs \<or> c \<in> set (split_size (drop n xs) n)"
      by (subst (asm) split_size.simps) simp
    with 1 False show ?thesis by auto
  qed
qed

lemma ceil_div_small:
  fixes m n :: nat
  assumes "0 < m" "m \<le> n"
  shows "(m + n - 1) div n = 1"
proof -
  obtain k where k: "m = Suc k" using assms(1) by (cases m) auto
  then have "k < n" using assms(2) by simp
  then have "(k + n) div n = 1" using div_add_self2 [of n k] by simp
  then show ?thesis by (simp add: k)
qed

lemma ceil_div_step:
  fixes m n :: nat
  assumes "0 < n" "n < m"
  shows "(m + n - 1) div n = Suc ((m - n + n - 1) div n)"
proof -
  obtain k where k: "m = Suc k" using assms by (cases m) auto
  have "(k + n) div n = Suc (k div n)" using assms(1) div_add_self2 [of n k] by simp
  moreover have "m - n + n - 1 = k" using assms(2) k by simp
  ultimately show ?thesis by (simp add: k)
qed

text \<open>\<^verbatim>\<open>torch.split\<close> returns \<open>ceil (len / n)\<close> pieces.\<close>

lemma length_split_size:
  "0 < n \<Longrightarrow> xs \<noteq> [] \<Longrightarrow> length (split_size xs n) = (length xs + n - 1) div n"
proof (induction xs n rule: split_size.induct)
  case (1 xs n)
  show ?case
  proof (cases "length xs \<le> n")
    case True
    from "1.prems" have "0 < length xs" by simp
    then have "(length xs + n - 1) div n = 1" using True by (rule ceil_div_small)
    with True show ?thesis by (subst split_size.simps) simp
  next
    case False
    then have d: "drop n xs \<noteq> []" by simp
    have "length (split_size (drop n xs) n) = (length (drop n xs) + n - 1) div n"
      using "1.IH" False "1.prems" d by simp
    moreover have "(length xs + n - 1) div n = Suc ((length xs - n + n - 1) div n)"
      using False "1.prems"(1) by (intro ceil_div_step) simp_all
    ultimately show ?thesis using False "1.prems"(1) by (subst split_size.simps) simp
  qed
qed

text \<open>
  The piece size that \<^verbatim>\<open>torch.chunk(sample, len(sample) // local_batch_size + 1)\<close> uses
  for a sample longer than a row is positive and at most the row width.
\<close>

lemma chunk_size_bounds:
  fixes lbs len :: nat
  assumes "0 < lbs" "lbs < len"
  shows "0 < (len + (len div lbs + 1) - 1) div (len div lbs + 1)"
    and "(len + (len div lbs + 1) - 1) div (len div lbs + 1) \<le> lbs"
proof -
  define q where "q = len div lbs"
  have "len = lbs * q + len mod lbs" by (simp add: q_def)
  moreover have "len mod lbs < lbs" using assms(1) by simp
  ultimately have "len < lbs * q + lbs" by linarith
  then have up: "len + q < (lbs + 1) * (q + 1)" by (simp add: algebra_simps)
  have "q + 1 \<le> len + q" using assms by simp
  then have "0 < (len + q) div (q + 1)"
    by (simp add: div_greater_zero_iff)
  then show "0 < (len + (len div lbs + 1) - 1) div (len div lbs + 1)"
    by (simp add: q_def)
  from up have "(len + q) div (q + 1) < lbs + 1"
    by (rule less_mult_imp_div_less)
  then show "(len + (len div lbs + 1) - 1) div (len div lbs + 1) \<le> lbs"
    by (simp add: q_def)
qed

lemma chunk_len_bounds:
  assumes "0 < lbs" "lbs < len"
  shows "0 < chunk_len len lbs" and "chunk_len len lbs \<le> lbs"
  using chunk_size_bounds [OF assms] by (simp_all add: chunk_len_def)

lemma split_rows_ok:
  "\<forall>c\<in>set pieces. length c \<le> lbs \<Longrightarrow> split_rows lbs pad pieces = Inr (padded_rows lbs pad pieces)"
  by (induction pieces) (simp_all add: padded_rows_def)

lemma length_concat_padded_rows:
  "\<forall>c\<in>set pieces. length c \<le> lbs \<Longrightarrow>
     length (concat (padded_rows lbs pad pieces)) = lbs * length pieces"
  by (induction pieces) (simp_all add: padded_rows_def)

lemma chunk_oversized:
  assumes "0 < lbs" "lbs < length sample"
  shows "chunk sample (length sample div lbs + 1) =
           Inr (split_size sample (chunk_len (length sample) lbs))"
proof -
  have "0 < (length sample + (length sample div lbs + 1) - 1) div (length sample div lbs + 1)"
    using assms by (rule chunk_size_bounds(1))
  then show ?thesis
    unfolding chunk_def chunk_len_def Let_def by simp
qed

section \<open>Facts about one iteration of the packing loop\<close>

lemma pack_step_oversized:
  assumes "0 < lbs" "cur < lbs" "lbs < length sample"
  shows "pack_step lbs pad (chunks, cur) sample =
           Inr (chunks @ replicate (lbs - cur) pad #
                  padded_rows lbs pad (split_size sample (chunk_len (length sample) lbs)),
                0)"
proof -
  let ?cs = "chunk_len (length sample) lbs"
  have cs: "0 < ?cs" "?cs \<le> lbs"
    using chunk_len_bounds [OF assms(1,3)] by simp_all
  have "\<forall>c\<in>set (split_size sample ?cs). length c \<le> lbs"
    using split_size_length_le [OF cs(1)] cs(2) by fastforce
  then have sr: "split_rows lbs pad (split_size sample ?cs) = Inr (padded_rows lbs pad (split_size sample ?cs))"
    by (rule split_rows_ok)
  have ne: "sample \<noteq> []" using assms by auto
  have ch: "chunk sample (Suc (length sample div lbs)) = Inr (split_size sample ?cs)"
    using chunk_oversized [OF assms(1,3)] by simp
  show ?thesis
    using assms ne by (simp add: pack_step_def ch sr)
qed

lemma pack_step_fits:
  assumes "cur < lbs" "sample \<noteq> []" "length sample + cur < lbs"
  shows "pack_step lbs pad (chunks, cur) sample = Inr (chunks @ [sample], cur + length sample)"
  using assms by (simp add: pack_step_def)

lemma pack_step_new_row:
  assumes "cur < lbs" "sample \<noteq> []" "lbs \<le> length sample + cur" "length sample \<le> lbs"
  shows "pack_step lbs pad (chunks, cur) sample =
           Inr (chunks @ [replicate (lbs - cur) pad, sample],
                if length sample = lbs then 0 else length sample)"
  using assms by (simp add: pack_step_def)

lemma row_completed:
  fixes L lbs :: nat
  assumes "L mod lbs = cur" "cur < lbs"
  shows "lbs dvd L + (lbs - cur)"
proof -
  have "L = lbs * (L div lbs) + cur" using assms(1) by (metis mult_div_mod_eq)
  then have "L + (lbs - cur) = lbs * (L div lbs + 1)" using assms(2)
    by (simp add: algebra_simps)
  then show ?thesis by (metis dvd_triv_left)
qed

lemma inv_big:
  assumes "0 < lbs" "cur < lbs" "length (concat chunks) mod lbs = cur" "lbs < length sample"
  shows "\<exists>chunks' cur'. pack_step lbs pad (chunks, cur) sample = Inr (chunks', cur') \<and>
           cur' < lbs \<and> length (concat chunks') mod lbs = cur'"
proof -
  let ?pieces = "split_size sample (chunk_len (length sample) lbs)"
  let ?out = "chunks @ replicate (lbs - cur) pad # padded_rows lbs pad ?pieces"
  have cl: "0 < chunk_len (length sample) lbs" "chunk_len (length sample) lbs \<le> lbs"
    using chunk_len_bounds [OF assms(1,4)] by simp_all
  have le: "\<forall>c\<in>set ?pieces. length c \<le> lbs"
  proof
    fix c assume "c \<in> set ?pieces"
    then have "length c \<le> chunk_len (length sample) lbs"
      using split_size_length_le [OF cl(1)] by blast
    then show "length c \<le> lbs" using cl(2) by simp
  qed
  have "length (concat ?out)
          = (length (concat chunks) + (lbs - cur)) + lbs * length ?pieces"
    by (simp add: length_concat_padded_rows [OF le])
  moreover have "lbs dvd (length (concat chunks) + (lbs - cur)) + lbs * length ?pieces"
    using row_completed [OF assms(3,2)] by (rule dvd_add) simp
  ultimately have "lbs dvd length (concat ?out)" by (simp add: add.assoc)
  then have "length (concat ?out) mod lbs = 0" by (rule dvd_imp_mod_0)
  moreover have "pack_step lbs pad (chunks, cur) sample = Inr (?out, 0)"
    by (rule pack_step_oversized [OF assms(1,2,4)])
  ultimately show ?thesis using assms(1) by simp
qed

lemma inv_new:
  assumes "0 < lbs" "cur < lbs" "length (concat chunks) mod lbs = cur" "sample \<noteq> []"
    "length sample \<le> lbs" "lbs \<le> length sample + cur"
  shows "\<exists>chunks' cur'. pack_step lbs pad (chunks, cur) sample = Inr (chunks', cur') \<and>
           cur' < lbs \<and> length (concat chunks') mod lbs = cur'"
proof -
  let ?out = "chunks @ [replicate (lbs - cur) pad, sample]"
  let ?cur = "if length sample = lbs then 0 else length sample"
  have "length (concat ?out) = (length (concat chunks) + (lbs - cur)) + length sample"
    by simp
  then have "length (concat ?out) mod lbs
      = ((length (concat chunks) + (lbs - cur)) mod lbs + length sample) mod lbs"
    by (simp only: mod_add_left_eq)
  also have "\<dots> = length sample mod lbs"
    using dvd_imp_mod_0 [OF row_completed [OF assms(3,2)]] by simp
  also have "\<dots> = ?cur" using assms(5) by simp
  finally have "length (concat ?out) mod lbs = ?cur" .
  moreover have "pack_step lbs pad (chunks, cur) sample = Inr (?out, ?cur)"
    by (rule pack_step_new_row [OF assms(2,4,6,5)])
  moreover have "?cur < lbs" using assms(1,5) by simp
  ultimately show ?thesis by simp
qed

lemma inv_fit:
  assumes "0 < lbs" "cur < lbs" "length (concat chunks) mod lbs = cur" "sample \<noteq> []"
    "length sample + cur < lbs"
  shows "\<exists>chunks' cur'. pack_step lbs pad (chunks, cur) sample = Inr (chunks', cur') \<and>
           cur' < lbs \<and> length (concat chunks') mod lbs = cur'"
proof -
  let ?out = "chunks @ [sample]"
  have "length (concat ?out) = length (concat chunks) + length sample" by simp
  then have "length (concat ?out) mod lbs = (length (concat chunks) mod lbs + length sample) mod lbs"
    by (simp only: mod_add_left_eq)
  also have "\<dots> = cur + length sample" using assms(3,5) by simp
  finally have "length (concat ?out) mod lbs = cur + length sample" .
  moreover have "pack_step lbs pad (chunks, cur) sample = Inr (?out, cur + length sample)"
    by (rule pack_step_fits [OF assms(2,4,5)])
  moreover have "cur + length sample < lbs" using assms(5) by simp
  ultimately show ?thesis by simp
qed

lemma pack_step_invariant:
  assumes "0 < lbs" "cur < lbs" "sample \<noteq> []" "length (concat chunks) mod lbs = cur"
  shows "\<exists>chunks' cur'. pack_step lbs pad (chunks, cur) sample = Inr (chunks', cur') \<and>
           cur' < lbs \<and> length (concat chunks') mod lbs = cur'"
proof -
  consider (big) "lbs < length sample"
    | (new) "length sample \<le> lbs" "lbs \<le> length sample + cur"
    | (fit) "length sample + cur < lbs" by linarith
  then show ?thesis
  proof cases
    case big
    then show ?thesis by (rule inv_big [OF assms(1,2,4)])
  next
    case new
    then show ?thesis by (rule inv_new [OF assms(1,2,4,3)])
  next
    case fit
    then show ?thesis by (rule inv_fit [OF assms(1,2,4,3)])
  qed
qed

lemma pack_loop_invariant:
  assumes "0 < lbs" "\<forall>s\<in>set samples. s \<noteq> []"
    "cur < lbs" "length (concat chunks) mod lbs = cur"
  shows "\<exists>chunks' cur'. pack_loop lbs pad (chunks, cur) samples = Inr (chunks', cur') \<and>
           cur' < lbs \<and> length (concat chunks') mod lbs = cur'"
  using assms(2-)
proof (induction samples arbitrary: chunks cur)
  case Nil
  then show ?case by simp
next
  case (Cons s samples)
  from Cons.prems have "s \<noteq> []" by simp
  from pack_step_invariant [OF assms(1) Cons.prems(2) this Cons.prems(3), of pad]
  obtain chunks1 cur1 where step: "pack_step lbs pad (chunks, cur) s = Inr (chunks1, cur1)"
    and inv: "cur1 < lbs" "length (concat chunks1) mod lbs = cur1" by blast
  from Cons.prems have "\<forall>s\<in>set samples. s \<noteq> []" by simp
  from Cons.IH [OF this inv] show ?case by (simp add: step)
qed

lemma pack_loop_take:
  "pack_loop lbs pad st samples = Inr st' \<Longrightarrow>
     \<exists>st''. pack_loop lbs pad st (take k samples) = Inr st''"
proof (induction samples arbitrary: st k)
  case Nil
  then show ?case by simp
next
  case (Cons s samples)
  show ?case
  proof (cases k)
    case 0
    then show ?thesis by simp
  next
    case (Suc j)
    from Cons.prems obtain st1 where step: "pack_step lbs pad st s = Inr st1"
      and rest: "pack_loop lbs pad st1 samples = Inr st'"
      by (auto split: sum.splits)
    from Cons.IH [OF rest] show ?thesis by (simp add: Suc step)
  qed
qed

lemma sorted_eos_positions: "sorted_wrt (<) (eos_positions_of raw eos)"
  unfolding eos_positions_of_def by (rule sorted_wrt_filter) simp

lemma eos_positions_bound: "p \<in> set (eos_positions_of raw eos) \<Longrightarrow> p < length raw \<and> raw ! p = eos"
  by (simp add: eos_positions_of_def)

lemma eos_positions_complete: "p < length raw \<Longrightarrow> raw ! p = eos \<Longrightarrow> p \<in> set (eos_positions_of raw eos)"
  by (simp add: eos_positions_of_def)

lemma sample_at_nonempty:
  assumes "i < length (eos_positions_of raw eos)"
  shows "sample_at raw (eos_positions_of raw eos) i \<noteq> []"
proof -
  let ?ps = "eos_positions_of raw eos"
  have "?ps ! i \<in> set ?ps" using assms by (rule nth_mem)
  then have b: "?ps ! i < length raw" by (simp add: eos_positions_bound)
  have prev: "(if i = 0 then 0 else ?ps ! (i - 1) + 1) \<le> ?ps ! i"
  proof (cases "i = 0")
    case True
    then show ?thesis by simp
  next
    case False
    then have "i - 1 < i" by simp
    then have "?ps ! (i - 1) < ?ps ! i"
      using assms by (rule sorted_wrt_nth_less [OF sorted_eos_positions])
    with False show ?thesis by simp
  qed
  have "length (sample_at raw ?ps i) = ?ps ! i + 1 - (if i = 0 then 0 else ?ps ! (i - 1) + 1)"
    using b prev by (simp add: sample_at_def py_slice_def Let_def)
  then have "0 < length (sample_at raw ?ps i)" using prev by simp
  then show ?thesis by simp
qed

lemma samples_of_nonempty: "\<forall>s\<in>set (samples_of raw eos). s \<noteq> []"
proof
  fix s assume "s \<in> set (samples_of raw eos)"
  then obtain i where "i < length (eos_positions_of raw eos)"
    and "s = sample_at raw (eos_positions_of raw eos) i"
    by (auto simp add: samples_of_def Let_def)
  then show "s \<noteq> []" by (simp add: sample_at_nonempty)
qed

section \<open>Claims about the packing loop\<close>

text \<open>
  Claim C9 (the assertion inside the packing loop never fails): for a row width of at least
  1 and every combined buffer, after any number \<open>k\<close> of iterations over the samples of the
  buffer the loop has not raised and the running row length is below the row width, so the
  assertion \<^verbatim>\<open>curr_batch_len < self.local_batch_size\<close> at the start of iteration \<open>k + 1\<close>
  holds.
\<close>

theorem pack_loop_assertion_holds:
  assumes "0 < lbs"
  shows "\<forall>k \<le> length (samples_of raw eos).
           \<exists>chunks cur. pack_loop lbs pad ([], 0) (take k (samples_of raw eos)) = Inr (chunks, cur)
              \<and> cur < lbs"
proof (intro allI impI)
  fix k
  have "\<forall>s\<in>set (take k (samples_of raw eos)). s \<noteq> []"
    using samples_of_nonempty [of raw eos] by (meson in_set_takeD)
  from pack_loop_invariant [OF assms this, of 0 "[]" pad] assms
  show "\<exists>chunks cur. pack_loop lbs pad ([], 0) (take k (samples_of raw eos)) = Inr (chunks, cur)
              \<and> cur < lbs" by auto
qed

lemma samples_example:
  "samples_of [0, 5, 5, 5, 5, 5, 2, 0, 6, 6, 6, 6, 6, 2 :: byte] 2
     = [[0, 5, 5, 5, 5, 5, 2], [0, 6, 6, 6, 6, 6, 2]]"
  by code_simp

theorem pack_loop_assertion_holds_witness:
  "\<exists>chunks cur. pack_loop 10 (1 :: byte) ([], 0)
      (take 2 (samples_of [0, 5, 5, 5, 5, 5, 2, 0, 6, 6, 6, 6, 6, 2] 2)) = Inr (chunks, cur)
      \<and> cur < 10"
proof -
  have pos: "0 < (10 :: nat)" by simp
  have len: "2 \<le> length (samples_of [0, 5, 5, 5, 5, 5, 2, 0, 6, 6, 6, 6, 6, 2 :: byte] 2)"
    by (simp add: samples_example)
  from pack_loop_assertion_holds [OF pos, rule_format, OF len] show ?thesis .
qed

lemma pack_raw_result:
  assumes "0 < local_batch_size s"
  shows "\<exists>chunks cur.
           pack_loop (local_batch_size s) (pad_id s) ([], 0) (samples_of raw (eos_id s)) = Inr (chunks, cur)
         \<and> cur < local_batch_size s
         \<and> length (concat chunks) mod local_batch_size s = cur
         \<and> pack_raw s raw =
             (if eos_positions_of raw (eos_id s) = [] then Inl UnboundLocalError
              else Inr (s\<lparr>leftover_tokens := drop (last (eos_positions_of raw (eos_id s)) + 1) raw,
                         tokens := concat chunks\<rparr>))"
proof -
  have z: "length (concat ([] :: byte list list)) mod local_batch_size s = 0" by simp
  from pack_loop_invariant [OF assms samples_of_nonempty [of raw "eos_id s"] assms z, where pad = "pad_id s"]
  obtain chunks cur where
    l: "pack_loop (local_batch_size s) (pad_id s) ([], 0) (samples_of raw (eos_id s)) = Inr (chunks, cur)"
    and c: "cur < local_batch_size s" "length (concat chunks) mod local_batch_size s = cur"
    by blast
  have "pack_raw s raw =
             (if eos_positions_of raw (eos_id s) = [] then Inl UnboundLocalError
              else Inr (s\<lparr>leftover_tokens := drop (last (eos_positions_of raw (eos_id s)) + 1) raw,
                         tokens := concat chunks\<rparr>))"
    by (simp add: pack_raw_def Let_def l)
  with l c show ?thesis by blast
qed






lemma split_size_nonempty: "split_size xs n \<noteq> []"
  by (subst split_size.simps) simp

lemma split_size_butlast:
  "0 < n \<Longrightarrow> c \<in> set (butlast (split_size xs n)) \<Longrightarrow> length c = n"
proof (induction xs n rule: split_size.induct)
  case (1 xs n)
  show ?case
  proof (cases "length xs \<le> n")
    case True
    with "1.prems" show ?thesis by (subst (asm) split_size.simps) simp
  next
    case False
    with "1.prems" have "c \<in> set (butlast (take n xs # split_size (drop n xs) n))"
      by (subst (asm) split_size.simps) simp
    then have "c = take n xs \<or> c \<in> set (butlast (split_size (drop n xs) n))"
      by (simp add: split_size_nonempty)
    with 1 False show ?thesis by auto
  qed
qed

lemma ceil_mult_ge:
  fixes a b :: nat
  assumes "0 < b"
  shows "a \<le> ((a + b - 1) div b) * b"
proof -
  have "(a + b - 1) = ((a + b - 1) div b) * b + (a + b - 1) mod b" by simp
  moreover have "(a + b - 1) mod b < b" using assms by simp
  ultimately have "a + b - 1 < ((a + b - 1) div b) * b + b" by linarith
  then show ?thesis using assms by linarith
qed

lemma chunk_count_le:
  fixes lbs len :: nat
  assumes "0 < lbs" "lbs < len"
  shows "(len + chunk_len len lbs - 1) div chunk_len len lbs \<le> len div lbs + 1"
proof -
  define q where "q = len div lbs"
  define cs where "cs = chunk_len len lbs"
  have cs0: "0 < cs" using chunk_len_bounds(1) [OF assms] by (simp add: cs_def)
  have "cs = (len + (q + 1) - 1) div (q + 1)" by (simp add: cs_def chunk_len_def q_def)
  then have "len \<le> cs * (q + 1)" using ceil_mult_ge [of "q + 1" len] by simp
  then have "len + cs - 1 < (q + 2) * cs" using cs0 by (simp add: algebra_simps)
  then have "(len + cs - 1) div cs < q + 2" by (rule less_mult_imp_div_less)
  then show ?thesis by (simp add: q_def cs_def)
qed

lemma chunk_count_eq:
  fixes lbs len :: nat
  assumes "0 < lbs" "lbs < len" "\<not> lbs dvd len"
  shows "(len + chunk_len len lbs - 1) div chunk_len len lbs = (len + lbs - 1) div lbs"
    and "(len + lbs - 1) div lbs = len div lbs + 1"
proof -
  define q where "q = len div lbs"
  define cs where "cs = chunk_len len lbs"
  define n where "n = (len + cs - 1) div cs"
  have cs: "0 < cs" "cs \<le> lbs" using chunk_len_bounds [OF assms(1,2)] by (simp_all add: cs_def)
  have r: "0 < len mod lbs" using assms(3) by (simp add: dvd_eq_mod_eq_0)
  have len: "len = q * lbs + len mod lbs" by (simp add: q_def)
  have le: "n \<le> q + 1" using chunk_count_le [OF assms(1,2)] by (simp add: n_def cs_def q_def)
  have "len \<le> n * cs" unfolding n_def by (rule ceil_mult_ge [OF cs(1)])
  also have "n * cs \<le> n * lbs" using cs(2) by simp
  finally have "len \<le> n * lbs" .
  have "q < n"
  proof (rule ccontr)
    assume "\<not> q < n"
    then have "n \<le> q" by simp
    then have "n * lbs \<le> q * lbs" by simp
    with \<open>len \<le> n * lbs\<close> len r show False by linarith
  qed
  with le have n: "n = q + 1" by simp
  have rl: "len mod lbs < lbs" using assms(1) by simp
  have lo: "lbs * (q + 1) \<le> len + lbs - 1"
  proof -
    have "lbs * (q + 1) = q * lbs + lbs" by (simp add: algebra_simps)
    with len r show ?thesis by linarith
  qed
  have hi: "len + lbs - 1 < lbs * Suc (q + 1)"
  proof -
    have "lbs * Suc (q + 1) = q * lbs + lbs + lbs" by (simp add: algebra_simps)
    with len rl assms(1) show ?thesis by linarith
  qed
  from lo hi have c: "(len + lbs - 1) div lbs = q + 1" by (rule div_nat_eqI)
  then show "(len + lbs - 1) div lbs = len div lbs + 1" by (simp add: q_def)
  from n c show "(len + chunk_len len lbs - 1) div chunk_len len lbs = (len + lbs - 1) div lbs"
    by (simp add: n_def cs_def)
qed

lemma split_size_pieces_nonempty:
  "xs \<noteq> [] \<Longrightarrow> 0 < n \<Longrightarrow> c \<in> set (split_size xs n) \<Longrightarrow> c \<noteq> []"
proof (induction xs n rule: split_size.induct)
  case (1 xs n)
  show ?case
  proof (cases "length xs \<le> n")
    case True
    then have "split_size xs n = [xs]" by (subst split_size.simps) simp
    with "1.prems" show ?thesis by simp
  next
    case False
    then have "split_size xs n = take n xs # split_size (drop n xs) n"
      using "1.prems"(2) by (subst split_size.simps) simp
    with "1.prems" have "c = take n xs \<or> c \<in> set (split_size (drop n xs) n)" by simp
    moreover have "take n xs \<noteq> []" using "1.prems" by simp
    moreover have "drop n xs \<noteq> []" using False by simp
    ultimately show ?thesis using 1 False by auto
  qed
qed

text \<open>
  Claim C6 (splitting of an oversized sample), as the code has it: for a row width of at
  least 1, a sample longer than a row is cut by \<^verbatim>\<open>torch.chunk\<close> into consecutive pieces of
  \<open>n = ceil (len / (len div width + 1))\<close> tokens, the last piece possibly shorter, none
  empty, \<open>n\<close> at most the row width. The iteration first completes the current row with
  PAD tokens (a whole row of PAD when the row was empty), then emits every piece followed
  by the PAD tokens that fill its row, and leaves the running row length at 0. There are
  \<open>ceil (len / n)\<close> pieces, at most \<open>len div width + 1\<close>; this is \<open>ceil (len / width)\<close>
  when the row width does not divide the length.
\<close>

theorem oversized_sample_split:
  assumes "0 < lbs" "cur < lbs" "lbs < length sample"
  shows "let n = chunk_len (length sample) lbs; pieces = split_size sample n in
     pack_step lbs pad (chunks, cur) sample
       = Inr (chunks @ replicate (lbs - cur) pad # padded_rows lbs pad pieces, 0)
     \<and> concat pieces = sample
     \<and> 0 < n \<and> n \<le> lbs
     \<and> (\<forall>c\<in>set pieces. c \<noteq> [] \<and> length c \<le> n)
     \<and> (\<forall>c\<in>set (butlast pieces). length c = n)
     \<and> length pieces = (length sample + n - 1) div n
     \<and> length pieces \<le> length sample div lbs + 1
     \<and> (\<not> lbs dvd length sample \<longrightarrow> length pieces = (length sample + lbs - 1) div lbs)"
proof -
  define n where "n = chunk_len (length sample) lbs"
  define pieces where "pieces = split_size sample n"
  have ne: "sample \<noteq> []" using assms(3) by auto
  have n: "0 < n" "n \<le> lbs" using chunk_len_bounds [OF assms(1,3)] by (simp_all add: n_def)
  have 1: "pack_step lbs pad (chunks, cur) sample
       = Inr (chunks @ replicate (lbs - cur) pad # padded_rows lbs pad pieces, 0)"
    unfolding pieces_def n_def by (rule pack_step_oversized [OF assms])
  have 2: "concat pieces = sample" unfolding pieces_def by (rule concat_split_size)
  have 3: "\<forall>c\<in>set pieces. c \<noteq> [] \<and> length c \<le> n"
    using split_size_pieces_nonempty [OF ne n(1)] split_size_length_le [OF n(1)]
    unfolding pieces_def by blast
  have 4: "\<forall>c\<in>set (butlast pieces). length c = n"
    using split_size_butlast [OF n(1)] unfolding pieces_def by blast
  have 5: "length pieces = (length sample + n - 1) div n"
    unfolding pieces_def by (rule length_split_size [OF n(1) ne])
  have 6: "length pieces \<le> length sample div lbs + 1"
    unfolding 5 n_def by (rule chunk_count_le [OF assms(1,3)])
  have 7: "\<not> lbs dvd length sample \<longrightarrow> length pieces = (length sample + lbs - 1) div lbs"
    unfolding 5 n_def using chunk_count_eq(1) [OF assms(1,3)] by blast
  from 1 2 n 3 4 5 6 7 show ?thesis
    unfolding Let_def n_def [symmetric] pieces_def [symmetric] by blast
qed

theorem oversized_sample_split_witness:
  "pack_step 5 (1 :: byte) ([[0, 14, 2]], 2) [0, 4, 5, 6, 7, 8, 9, 10, 11, 12, 13, 2]
     = Inr ([[0, 14, 2], [1, 1, 1],
             [0, 4, 5, 6], [1], [7, 8, 9, 10], [1], [11, 12, 13, 2], [1]], 0)
   \<and> chunk_len 12 5 = 4
   \<and> length (split_size [0, 4, 5, 6, 7, 8, 9, 10, 11, 12, 13, 2 :: byte] 4) = (12 + 5 - 1) div 5"
proof -
  let ?sample = "[0, 4, 5, 6, 7, 8, 9, 10, 11, 12, 13, 2 :: byte]"
  have h1: "0 < (5 :: nat)" by simp
  have h2: "(2 :: nat) < 5" by simp
  have h3: "5 < length ?sample" by simp
  have cl: "chunk_len 12 5 = 4" by code_simp
  have sp: "split_size ?sample 4 = [[0, 4, 5, 6], [7, 8, 9, 10], [11, 12, 13, 2]]" by code_simp
  have pr: "padded_rows 5 (1 :: byte) [[0, 4, 5, 6], [7, 8, 9, 10], [11, 12, 13, 2]]
      = [[0, 4, 5, 6], [1], [7, 8, 9, 10], [1], [11, 12, 13, 2], [1]]" by code_simp
  have nd: "\<not> (5 :: nat) dvd 12" by simp
  have len: "length ?sample = 12" by simp
  note t = oversized_sample_split [OF h1 h2 h3, of 1 "[[0, 14, 2]]", unfolded Let_def len cl sp pr]
  from t have a: "pack_step 5 (1 :: byte) ([[0, 14, 2]], 2) ?sample
     = Inr ([[0, 14, 2]] @ replicate (5 - 2) 1 #
              [[0, 4, 5, 6], [1], [7, 8, 9, 10], [1], [11, 12, 13, 2], [1]], 0)" by blast
  from t nd have b: "length [[0, 4, 5, 6], [7, 8, 9, 10], [11, 12, 13, 2 :: byte]] = (12 + 5 - 1) div 5"
    by blast
  have rp: "replicate 3 (1 :: byte) = [1, 1, 1]" by code_simp
  from a b cl show ?thesis by (simp add: sp rp)
qed

text \<open>
  When the row width divides the length the pieces can be one more than
  \<open>ceil (len / width)\<close>: a sample of 20 tokens with rows of 10 is cut into 3 pieces of
  7, 7 and 6 tokens, not into 2.
\<close>

theorem oversized_multiple_gets_extra_chunk:
  "pack_step 10 (1 :: byte) ([], 0)
      [0, 4, 5, 6, 7, 8, 9, 10, 11, 12, 13, 14, 15, 16, 17, 18, 19, 20, 21, 2]
    = Inr ([[1, 1, 1, 1, 1, 1, 1, 1, 1, 1],
            [0, 4, 5, 6, 7, 8, 9], [1, 1, 1],
            [10, 11, 12, 13, 14, 15, 16], [1, 1, 1],
            [17, 18, 19, 20, 21, 2], [1, 1, 1, 1]], 0)
   \<and> chunk [0, 4, 5, 6, 7, 8, 9, 10, 11, 12, 13, 14, 15, 16, 17, 18, 19, 20, 21, 2 :: byte]
        (20 div 10 + 1)
      = Inr [[0, 4, 5, 6, 7, 8, 9], [10, 11, 12, 13, 14, 15, 16], [17, 18, 19, 20, 21, 2]]
   \<and> (20 + 10 - 1) div 10 = (2 :: nat)"
  by code_simp

section \<open>Facts about segmentation and carry-over\<close>

lemma take_append_slice: "a \<le> b \<Longrightarrow> take a xs @ py_slice xs a b = take b xs"
proof -
  assume "a \<le> b"
  then have "take b xs = take (a + (b - a)) xs" by simp
  also have "\<dots> = take a xs @ take (b - a) (drop a xs)" by (rule take_add)
  finally show ?thesis by (simp add: py_slice_def)
qed

lemma concat_samples_prefix:
  assumes "k \<le> length (eos_positions_of raw eos)"
  shows "concat (map (sample_at raw (eos_positions_of raw eos)) [0..<k])
           = take (if k = 0 then 0 else eos_positions_of raw eos ! (k - 1) + 1) raw"
  using assms
proof (induction k)
  case 0
  then show ?case by simp
next
  case (Suc k)
  let ?ps = "eos_positions_of raw eos"
  let ?prev = "if k = 0 then 0 else ?ps ! (k - 1) + 1"
  have le: "?prev \<le> ?ps ! k + 1"
  proof (cases "k = 0")
    case True
    then show ?thesis by simp
  next
    case False
    then have "k - 1 < k" by simp
    then have "?ps ! (k - 1) < ?ps ! k"
      using Suc.prems by (intro sorted_wrt_nth_less [OF sorted_eos_positions]) simp_all
    with False show ?thesis by simp
  qed
  have "concat (map (sample_at raw ?ps) [0..<Suc k])
          = concat (map (sample_at raw ?ps) [0..<k]) @ sample_at raw ?ps k" by simp
  also have "\<dots> = take ?prev raw @ sample_at raw ?ps k"
    using Suc.IH Suc.prems by simp
  also have "\<dots> = take ?prev raw @ py_slice raw ?prev (?ps ! k + 1)"
    by (simp add: sample_at_def Let_def)
  also have "\<dots> = take (?ps ! k + 1) raw" using le by (rule take_append_slice)
  finally show ?case by simp
qed

lemma concat_samples_of:
  assumes "eos_positions_of raw eos \<noteq> []"
  shows "concat (samples_of raw eos) = take (last (eos_positions_of raw eos) + 1) raw"
proof -
  let ?ps = "eos_positions_of raw eos"
  have "concat (samples_of raw eos) = take (?ps ! (length ?ps - 1) + 1) raw"
    using concat_samples_prefix [of "length ?ps" raw eos] assms
    by (simp add: samples_of_def Let_def)
  then show ?thesis using assms by (simp add: last_conv_nth)
qed

lemma leftover_has_no_eos:
  assumes "eos_positions_of raw eos \<noteq> []"
  shows "eos \<notin> set (drop (last (eos_positions_of raw eos) + 1) raw)"
proof
  let ?ps = "eos_positions_of raw eos"
  assume "eos \<in> set (drop (last ?ps + 1) raw)"
  then obtain j where j: "j < length (drop (last ?ps + 1) raw)" "drop (last ?ps + 1) raw ! j = eos"
    by (auto simp add: in_set_conv_nth)
  then have "last ?ps + 1 + j < length raw" "raw ! (last ?ps + 1 + j) = eos" by simp_all
  then have m: "last ?ps + 1 + j \<in> set ?ps" by (rule eos_positions_complete)
  then obtain i where i: "i < length ?ps" "?ps ! i = last ?ps + 1 + j"
    by (auto simp add: in_set_conv_nth)
  have "?ps ! i \<le> ?ps ! (length ?ps - 1)"
  proof (cases "i = length ?ps - 1")
    case True
    then show ?thesis by simp
  next
    case False
    with i(1) have "i < length ?ps - 1" by simp
    then have "?ps ! i < ?ps ! (length ?ps - 1)"
      using i(1) by (intro sorted_wrt_nth_less [OF sorted_eos_positions]) simp_all
    then show ?thesis by simp
  qed
  then have "?ps ! i \<le> last ?ps" using assms by (simp add: last_conv_nth)
  with i(2) show False by simp
qed

text \<open>
  When the combined buffer holds an EOS, the packing keeps every token: the samples are
  the buffer up to the last EOS, the rest is carried over unchanged and holds no EOS.
\<close>

lemma leftover_carryover:
  assumes "0 < local_batch_size s" "eos_positions_of raw (eos_id s) \<noteq> []"
  shows "\<exists>s'. pack_raw s raw = Inr s'
           \<and> leftover_tokens s' = drop (last (eos_positions_of raw (eos_id s)) + 1) raw
           \<and> concat (samples_of raw (eos_id s)) @ leftover_tokens s' = raw
           \<and> eos_id s \<notin> set (leftover_tokens s')"
proof -
  from pack_raw_result [OF assms(1), of raw] assms(2)
  obtain chunks where "pack_raw s raw =
      Inr (s\<lparr>leftover_tokens := drop (last (eos_positions_of raw (eos_id s)) + 1) raw,
              tokens := concat chunks\<rparr>)" by auto
  then show ?thesis
    using concat_samples_of [OF assms(2)] leftover_has_no_eos [OF assms(2)] by simp
qed

section \<open>Claims about the carry-over\<close>

text \<open>
  Claim C3 (leftover carry-over): the tokens after the last EOS, all tokens when the
  combined buffer holds no EOS, should become the new leftover buffer. With an EOS in the
  buffer the code does so (lemma \<open>leftover_carryover\<close>). On a nonempty buffer without EOS the
  loop body never runs, \<^verbatim>\<open>curr_eos\<close> is unbound at
  \<^verbatim>\<open>self._leftover_tokens = raw_tokens[curr_eos+1:]\<close> and \<^verbatim>\<open>advance\<close> raises: here the
  constructor of the loader on a shard that declares the 3 tokens 0, 5, 6, with EOS id 2.
\<close>

theorem advance_without_eos_raises:
  "DistributedPaddedDataLoader [''shard.bin'' \<mapsto> header_bytes 3 @ [0, 5, 6]] shuffle
      [''shard.bin''] 4 0 1 0 2 1 1 = Inl UnboundLocalError"
proof -
  have l: "load_data_shard [''shard.bin'' \<mapsto> header_bytes 3 @ [0, 5, 6]] ''shard.bin'' = Inr [0, 5, 6]"
    by (simp add: load_data_shard_header_bytes [where n = 3 and payload = "[0, 5, 6]"])
  have e: "eos_positions_of [0, 5, 6 :: byte] 2 = []" by code_simp
  have s: "samples_of [0, 5, 6 :: byte] 2 = []" by code_simp
  show ?thesis
    by (simp add: DistributedPaddedDataLoader_def reset_def padded_advance_def load_raw_def l
        reshuffle_def pack_raw_def e s)
qed

section \<open>Claims about the tokenization driver\<close>

text \<open>
  Claim C4 (completeness of the shard writer): the shards written for a split, concatenated,
  should be the whole tokenized corpus for every document stream. The driver raises on two
  kinds of streams. When what is left of a document after filling the current shard is
  longer than a shard, the assignment \<^verbatim>\<open>all_tokens_np[0:len(tokens)-remainder] = tokens[remainder:]\<close>
  raises \<^verbatim>\<open>ValueError\<close>: with shards of 2 tokens, a document of 1 token followed by one of
  5 tokens. When a document crosses a shard boundary while \<^verbatim>\<open>progress_bar\<close> is \<^verbatim>\<open>None\<close> (the
  first document of the stream, or the document after one that crossed a boundary),
  \<^verbatim>\<open>progress_bar.update(remainder)\<close> raises \<^verbatim>\<open>AttributeError\<close>: with shards of 4 tokens, a
  first document of 5 tokens.
\<close>


theorem tokenize_fw_long_document_raises:
  "tokenize_fw 2 shard_name d [[5], [6, 7, 8, 9, 10]] = Inl ValueError
   \<and> tokenize_fw 4 shard_name d [[0, 5, 6, 7, 2]] = Inl AttributeError"
proof -
  have r: "replicate 2 (0 :: token) = [0, 0]" by code_simp
  have a: "tokenize_fw 2 shard_name d [[5], [6, 7, 8, 9, 10]] = Inl ValueError"
    by (simp add: tokenize_fw_def tokenize_step_def assign_slice_def write_datafile_def Let_def r)
  have b: "tokenize_fw 4 shard_name d [[0, 5, 6, 7, 2]] = Inl AttributeError"
    by (simp add: tokenize_fw_def tokenize_step_def)
  from a b show ?thesis by simp
qed

section \<open>Claims about the single-stream loader\<close>

lemma advance_pos: "advance d s = Inr s' \<Longrightarrow> pos s' = 0"
  by (auto simp add: advance_def split: if_splits sum.splits)

text \<open>
  Claim C7 (contract of \<^verbatim>\<open>next_batch\<close> of the single-stream loader), as amended. A call that
  returns gives the tokens that the current buffer holds in the slice from
  \<open>pos + rank * local_batch_size\<close> to \<open>pos + (rank + 1) * local_batch_size\<close>, widened to
  \<^verbatim>\<open>int32\<close>: the slice is clipped to the buffer, so the batch has exactly
  \<open>local_batch_size\<close> tokens when the buffer reaches the end of the slice and fewer
  otherwise. The cursor moves by \<open>batch_size\<close>. The shard is kept when the new cursor plus
  \<open>batch_size\<close> is below the length of the buffer; otherwise \<^verbatim>\<open>advance\<close> runs on the moved
  cursor. After a call with the \<^verbatim>\<open>advance\<close> of the class the cursor is 0 or one more global
  batch lies inside the buffer. For a rank below the world size, a global batch that holds
  the local batches of all ranks, and a state whose cursor is 0 on a buffer of at least
  \<open>batch_size\<close> tokens or has one more global batch inside the buffer, the batch has
  exactly \<open>local_batch_size\<close> tokens. The batch is always a slice of the one buffer of the
  state: it never spans two shards.
\<close>

theorem next_batch_contract:
  assumes "next_batch adv s = Inr (batch, s')"
  shows "batch = map ucast (py_slice (tokens s) (pos s + rank s * local_batch_size s)
                              (pos s + rank s * local_batch_size s + local_batch_size s))
     \<and> length batch = min (local_batch_size s)
                          (length (tokens s) - (pos s + rank s * local_batch_size s))
     \<and> (pos s + rank s * local_batch_size s + local_batch_size s \<le> length (tokens s)
          \<longrightarrow> length batch = local_batch_size s)
     \<and> (pos s + batch_size s + batch_size s < length (tokens s)
          \<longrightarrow> s' = s\<lparr>pos := pos s + batch_size s\<rparr>)
     \<and> (length (tokens s) \<le> pos s + batch_size s + batch_size s
          \<longrightarrow> adv (s\<lparr>pos := pos s + batch_size s\<rparr>) = Inr s')
     \<and> (adv = advance d \<longrightarrow> pos s' = 0 \<or> pos s' + batch_size s' < length (tokens s'))
     \<and> (rank s < world_size s \<and> local_batch_size s * world_size s \<le> batch_size s
          \<and> (pos s + batch_size s < length (tokens s)
               \<or> pos s = 0 \<and> batch_size s \<le> length (tokens s))
          \<longrightarrow> length batch = local_batch_size s)"
proof -
  let ?a = "pos s + rank s * local_batch_size s"
  let ?b = "map ucast (take (local_batch_size s) (drop ?a (tokens s))) :: 32 word list"
  let ?s1 = "s\<lparr>pos := pos s + batch_size s\<rparr>"
  have b: "batch = ?b"
    using assms by (auto simp add: next_batch_def Let_def split: if_splits sum.splits)
  have 1: "batch = map ucast (py_slice (tokens s) ?a (?a + local_batch_size s))"
    using b by (simp add: py_slice_def)
  have 2: "length batch = min (local_batch_size s) (length (tokens s) - ?a)"
    using b by (simp add: min.commute)
  have 3: "?a + local_batch_size s \<le> length (tokens s) \<longrightarrow> length batch = local_batch_size s"
    using 2 by auto
  have 4: "pos s + batch_size s + batch_size s < length (tokens s) \<longrightarrow> s' = ?s1"
    using assms by (auto simp add: next_batch_def Let_def split: if_splits sum.splits)
  have 5: "length (tokens s) \<le> pos s + batch_size s + batch_size s \<longrightarrow> adv ?s1 = Inr s'"
    using assms by (auto simp add: next_batch_def Let_def split: if_splits sum.splits)
  have 6: "adv = advance d \<longrightarrow> pos s' = 0 \<or> pos s' + batch_size s' < length (tokens s')"
  proof
    assume adv: "adv = advance d"
    show "pos s' = 0 \<or> pos s' + batch_size s' < length (tokens s')"
    proof (cases "pos s + batch_size s + batch_size s < length (tokens s)")
      case True
      with 4 have "s' = ?s1" by simp
      with True show ?thesis by simp
    next
      case False
      with 5 adv have "advance d ?s1 = Inr s'" by simp
      then show ?thesis by (simp add: advance_pos)
    qed
  qed
  have 7: "rank s < world_size s \<and> local_batch_size s * world_size s \<le> batch_size s
          \<and> (pos s + batch_size s < length (tokens s)
               \<or> pos s = 0 \<and> batch_size s \<le> length (tokens s))
          \<longrightarrow> length batch = local_batch_size s"
  proof
    assume h: "rank s < world_size s \<and> local_batch_size s * world_size s \<le> batch_size s
          \<and> (pos s + batch_size s < length (tokens s)
               \<or> pos s = 0 \<and> batch_size s \<le> length (tokens s))"
    then have "Suc (rank s) \<le> world_size s" by simp
    then have "local_batch_size s * Suc (rank s) \<le> local_batch_size s * world_size s"
      by (rule mult_le_mono2)
    with h have "rank s * local_batch_size s + local_batch_size s \<le> batch_size s"
      by (simp add: mult.commute)
    with h have "?a + local_batch_size s \<le> length (tokens s)" by auto
    with 3 show "length batch = local_batch_size s" by simp
  qed
  from 1 2 3 4 5 6 7 show ?thesis by blast
qed

theorem next_batch_contract_witness:
  "next_batch (advance [''shard.bin'' \<mapsto> header_bytes 12 @ [1, 2, 3, 4, 5, 6, 7, 8, 9, 10, 11, 12]])
     \<lparr>world_size = 2, rank = 1, files = [''shard.bin''], batch_size = 4, local_batch_size = 2,
      next_shard = 0, pos = 0, tokens = [1, 2, 3, 4, 5, 6, 7, 8, 9, 10, 11, 12]\<rparr>
    = Inr ([3, 4],
        \<lparr>world_size = 2, rank = 1, files = [''shard.bin''], batch_size = 4, local_batch_size = 2,
         next_shard = 0, pos = 4, tokens = [1, 2, 3, 4, 5, 6, 7, 8, 9, 10, 11, 12]\<rparr>)
   \<and> [3, 4 :: 32 word] = map ucast (py_slice [1, 2, 3, 4, 5, 6, 7, 8, 9, 10, 11, 12 :: byte] 2 4)
   \<and> length [3, 4 :: 32 word] = 2"
proof -
  let ?d = "[''shard.bin'' \<mapsto> header_bytes 12 @ [1, 2, 3, 4, 5, 6, 7, 8, 9, 10, 11, 12 :: byte]]"
  let ?s = "\<lparr>world_size = 2, rank = 1, files = [''shard.bin''], batch_size = 4,
      local_batch_size = 2, next_shard = 0, pos = 0,
      tokens = [1, 2, 3, 4, 5, 6, 7, 8, 9, 10, 11, 12 :: byte]\<rparr>"
  let ?s' = "\<lparr>world_size = 2, rank = 1, files = [''shard.bin''], batch_size = 4,
      local_batch_size = 2, next_shard = 0, pos = 4,
      tokens = [1, 2, 3, 4, 5, 6, 7, 8, 9, 10, 11, 12 :: byte]\<rparr>"
  have ev: "next_batch (advance ?d) ?s = Inr ([3, 4], ?s')"
    by (simp add: next_batch_def)
  note t = next_batch_contract [OF ev, of ?d]
  from t have a: "[3, 4 :: 32 word] = map ucast (py_slice (tokens ?s) (pos ?s + rank ?s * local_batch_size ?s)
                              (pos ?s + rank ?s * local_batch_size ?s + local_batch_size ?s))"
    by (rule conjunct1)
  have "pos ?s + rank ?s * local_batch_size ?s = 2"
    and "pos ?s + rank ?s * local_batch_size ?s + local_batch_size ?s = 4"
    and "tokens ?s = [1, 2, 3, 4, 5, 6, 7, 8, 9, 10, 11, 12]"
    by simp_all
  with a have a': "[3, 4 :: 32 word] = map ucast (py_slice [1, 2, 3, 4, 5, 6, 7, 8, 9, 10, 11, 12 :: byte] 2 4)"
    by (simp only:)
  have l: "length [3, 4 :: 32 word] = 2"
    by simp
  show ?thesis
    by (rule conjI [OF ev conjI [OF a' l]])
qed

text \<open>
  Claim C7 as stated fails on two inputs. A shard of 3 tokens read with a batch size of 4:
  the constructor loads it and the first call returns a batch of 3 tokens, not 4. A shard of
  8 tokens read with a batch size of 4: after the first batch the cursor is 4 and the second
  batch would end exactly at the end of the buffer, without overrunning it, yet the loader
  advances (the cursor is back at 0), so the tokens 5 to 8 are never returned.
\<close>

theorem next_batch_short_and_eager:
  "DistributedDataLoader [''shard.bin'' \<mapsto> header_bytes 3 @ [1, 2, 3]] [''shard.bin''] 4 0 1
     = Inr \<lparr>world_size = 1, rank = 0, files = [''shard.bin''], batch_size = 4,
            local_batch_size = 4, next_shard = 0, pos = 0, tokens = [1, 2, 3]\<rparr>
   \<and> next_batch (advance [''shard.bin'' \<mapsto> header_bytes 3 @ [1, 2, 3]])
       \<lparr>world_size = 1, rank = 0, files = [''shard.bin''], batch_size = 4,
        local_batch_size = 4, next_shard = 0, pos = 0, tokens = [1, 2, 3]\<rparr>
     = Inr ([1, 2, 3],
         \<lparr>world_size = 1, rank = 0, files = [''shard.bin''], batch_size = 4,
          local_batch_size = 4, next_shard = 0, pos = 0, tokens = [1, 2, 3]\<rparr>)
   \<and> DistributedDataLoader [''shard.bin'' \<mapsto> header_bytes 8 @ [1, 2, 3, 4, 5, 6, 7, 8]]
       [''shard.bin''] 4 0 1
     = Inr \<lparr>world_size = 1, rank = 0, files = [''shard.bin''], batch_size = 4,
            local_batch_size = 4, next_shard = 0, pos = 0, tokens = [1, 2, 3, 4, 5, 6, 7, 8]\<rparr>
   \<and> next_batch (advance [''shard.bin'' \<mapsto> header_bytes 8 @ [1, 2, 3, 4, 5, 6, 7, 8]])
       \<lparr>world_size = 1, rank = 0, files = [''shard.bin''], batch_size = 4,
        local_batch_size = 4, next_shard = 0, pos = 0, tokens = [1, 2, 3, 4, 5, 6, 7, 8]\<rparr>
     = Inr ([1, 2, 3, 4],
         \<lparr>world_size = 1, rank = 0, files = [''shard.bin''], batch_size = 4,
          local_batch_size = 4, next_shard = 0, pos = 0, tokens = [1, 2, 3, 4, 5, 6, 7, 8]\<rparr>)"
proof -
  have l3: "load_data_shard [''shard.bin'' \<mapsto> header_bytes 3 @ [1, 2, 3]] ''shard.bin'' = Inr [1, 2, 3]"
    by (simp add: load_data_shard_header_bytes [where n = 3 and payload = "[1, 2, 3]"])
  have l8: "load_data_shard [''shard.bin'' \<mapsto> header_bytes 8 @ [1, 2, 3, 4, 5, 6, 7, 8]] ''shard.bin''
      = Inr [1, 2, 3, 4, 5, 6, 7, 8]"
    by (simp add: load_data_shard_header_bytes [where n = 8 and payload = "[1, 2, 3, 4, 5, 6, 7, 8]"])
  show ?thesis
    by (simp add: DistributedDataLoader_def reset_def advance_def next_batch_def l3 l8)
qed

section \<open>Claims about the epoch reshuffle\<close>

lemma reshuffle_rank: "reshuffle shuffle (s\<lparr>rank := r\<rparr>) = (reshuffle shuffle s)\<lparr>rank := r\<rparr>"
  by (simp add: reshuffle_def)

lemma pack_raw_rank:
  "pack_raw (s\<lparr>rank := r\<rparr>) raw =
     (case pack_raw s raw of Inl e \<Rightarrow> Inl e | Inr s' \<Rightarrow> Inr (s'\<lparr>rank := r\<rparr>))"
  by (simp add: pack_raw_def Let_def split: sum.splits prod.splits)

lemma load_raw_rank_pos:
  "load_raw d (s\<lparr>rank := r, pos := 0\<rparr>) =
     (case load_raw d (s\<lparr>pos := 0\<rparr>) of
        Inl e \<Rightarrow> Inl e | Inr (raw, s1) \<Rightarrow> Inr (raw, s1\<lparr>rank := r\<rparr>))"
  by (simp add: load_raw_def split: sum.splits)

lemma padded_advance_rank:
  "padded_advance d shuffle (s\<lparr>rank := r\<rparr>) =
     (case padded_advance d shuffle s of Inl e \<Rightarrow> Inl e | Inr s' \<Rightarrow> Inr (s'\<lparr>rank := r\<rparr>))"
proof (cases "load_raw d (s\<lparr>pos := 0\<rparr>)")
  case (Inl e)
  then show ?thesis by (simp add: padded_advance_def load_raw_rank_pos)
next
  case (Inr p)
  obtain raw s1 where p: "p = (raw, s1)" by (cases p)
  show ?thesis
  proof (cases "raw = []")
    case True
    with Inr p show ?thesis by (simp add: padded_advance_def load_raw_rank_pos)
  next
    case False
    with Inr p show ?thesis
      by (simp add: padded_advance_def load_raw_rank_pos reshuffle_rank pack_raw_rank)
  qed
qed

lemma padded_advance_rank_pos:
  "padded_advance d shuffle (s\<lparr>rank := r, pos := p\<rparr>) =
     (case padded_advance d shuffle (s\<lparr>pos := p\<rparr>) of
        Inl e \<Rightarrow> Inl e | Inr s' \<Rightarrow> Inr (s'\<lparr>rank := r\<rparr>))"
proof -
  have "s\<lparr>rank := r, pos := p\<rparr> = (s\<lparr>pos := p\<rparr>)\<lparr>rank := r\<rparr>" by simp
  then show ?thesis by (simp only: padded_advance_rank)
qed

lemma next_batch_rank:
  assumes "next_batch (padded_advance d shuffle) s = Inr (b, s')"
  shows "\<exists>b'. next_batch (padded_advance d shuffle) (s\<lparr>rank := r\<rparr>) = Inr (b', s'\<lparr>rank := r\<rparr>)"
proof (cases "pos s + batch_size s + batch_size s < length (tokens s)")
  case True
  with assms show ?thesis by (auto simp add: next_batch_def Let_def)
next
  case False
  with assms have "padded_advance d shuffle (s\<lparr>pos := pos s + batch_size s\<rparr>) = Inr s'"
    by (auto simp add: next_batch_def Let_def split: sum.splits)
  with False show ?thesis by (simp add: next_batch_def Let_def padded_advance_rank_pos)
qed

lemma load_raw_files: "load_raw d s = Inr (raw, s1) \<Longrightarrow> files s1 = files s"
  by (auto simp add: load_raw_def split: if_splits sum.splits)

lemma pack_raw_files: "pack_raw s raw = Inr s' \<Longrightarrow> files s' = files s \<and> next_shard s' = next_shard s"
  by (auto simp add: pack_raw_def Let_def split: if_splits sum.splits prod.splits)

text \<open>
  Claim C8 (deterministic epoch reshuffle), as amended. The reshuffle reads the shard counter
  and the file list only: two loaders with the same counter and the same file list get the
  same order. An \<^verbatim>\<open>advance\<close> and a \<^verbatim>\<open>next_batch\<close> of the padded loader do not read the rank,
  so loaders that differ in their rank only change their state in the same way and hold the
  same file order after every call. An \<^verbatim>\<open>advance\<close> that returns has shuffled the file list,
  with the counter it has reached as the seed, exactly when its combined buffer is not
  empty and that counter is a multiple of the number of files; on an empty combined buffer
  it returns before the shuffle.
\<close>

theorem reshuffle_deterministic_and_gated:
  "(next_shard s = next_shard t \<and> files s = files t
      \<longrightarrow> files (reshuffle shuffle s) = files (reshuffle shuffle t))
   \<and> (\<forall>s'. padded_advance d shuffle s = Inr s'
        \<longrightarrow> padded_advance d shuffle (s\<lparr>rank := r\<rparr>) = Inr (s'\<lparr>rank := r\<rparr>)
            \<and> (case load_raw d (s\<lparr>pos := 0\<rparr>) of
                  Inl e \<Rightarrow> False
                | Inr (raw_tokens, s1) \<Rightarrow>
                    next_shard s' = next_shard s1
                    \<and> files s' =
                        (if raw_tokens \<noteq> [] \<and> next_shard s1 mod length (files s) = 0
                         then shuffle (next_shard s1) (files s) else files s)))
   \<and> (\<forall>b s'. next_batch (padded_advance d shuffle) s = Inr (b, s')
        \<longrightarrow> (\<exists>b'. next_batch (padded_advance d shuffle) (s\<lparr>rank := r\<rparr>)
                     = Inr (b', s'\<lparr>rank := r\<rparr>)))"
proof -
  have 1: "next_shard s = next_shard t \<and> files s = files t
      \<longrightarrow> files (reshuffle shuffle s) = files (reshuffle shuffle t)"
    by (simp add: reshuffle_def)
  have 2: "padded_advance d shuffle (s\<lparr>rank := r\<rparr>) = Inr (s'\<lparr>rank := r\<rparr>)"
    if "padded_advance d shuffle s = Inr s'" for s'
    using that by (simp add: padded_advance_rank)
  have 3: "(case load_raw d (s\<lparr>pos := 0\<rparr>) of
                  Inl e \<Rightarrow> False
                | Inr (raw_tokens, s1) \<Rightarrow>
                    next_shard s' = next_shard s1
                    \<and> files s' =
                        (if raw_tokens \<noteq> [] \<and> next_shard s1 mod length (files s) = 0
                         then shuffle (next_shard s1) (files s) else files s))"
    if a: "padded_advance d shuffle s = Inr s'" for s'
  proof (cases "load_raw d (s\<lparr>pos := 0\<rparr>)")
    case (Inl e)
    with a show ?thesis by (simp add: padded_advance_def)
  next
    case (Inr p)
    obtain raw s1 where p: "p = (raw, s1)" by (cases p)
    from Inr p have f: "files s1 = files s" using load_raw_files [of d "s\<lparr>pos := 0\<rparr>" raw s1] by simp
    show ?thesis
    proof (cases "raw = []")
      case True
      with a Inr p f show ?thesis by (auto simp add: padded_advance_def)
    next
      case False
      with a Inr p have "pack_raw (reshuffle shuffle s1) raw = Inr s'"
        by (simp add: padded_advance_def)
      from pack_raw_files [OF this] f False Inr p show ?thesis
        by (simp add: reshuffle_def)
    qed
  qed
  have 4: "\<exists>b'. next_batch (padded_advance d shuffle) (s\<lparr>rank := r\<rparr>) = Inr (b', s'\<lparr>rank := r\<rparr>)"
    if "next_batch (padded_advance d shuffle) s = Inr (b, s')" for b s'
    using that by (rule next_batch_rank)
  from 1 2 3 4 show ?thesis by blast
qed


lemma two_shards_a:
  "load_data_shard [''a.bin'' \<mapsto> header_bytes 3 @ [0, 5, 2], ''b.bin'' \<mapsto> header_bytes 3 @ [0, 6, 2]]
     ''a.bin'' = Inr [0, 5, 2]"
  by (simp add: load_data_shard_header_bytes [where n = 3 and payload = "[0, 5, 2]"])

lemma two_shards_b:
  "load_data_shard [''a.bin'' \<mapsto> header_bytes 3 @ [0, 5, 2], ''b.bin'' \<mapsto> header_bytes 3 @ [0, 6, 2]]
     ''b.bin'' = Inr [0, 6, 2]"
  by (simp add: load_data_shard_header_bytes [where n = 3 and payload = "[0, 6, 2]"])

lemma pack_one_sample:
  assumes "local_batch_size s = 4" and "eos_id s = 2" and "pad_id s = 1"
  shows "pack_raw s [0, 5, 2] = Inr (s\<lparr>leftover_tokens := [], tokens := [0, 5, 2]\<rparr>)"
    and "pack_raw s [0, 6, 2] = Inr (s\<lparr>leftover_tokens := [], tokens := [0, 6, 2]\<rparr>)"
proof -
  have 5: "eos_positions_of [0, 5, 2 :: byte] 2 = [2]"
    "pack_loop 4 (1 :: byte) ([], 0) (samples_of [0, 5, 2] 2) = Inr ([[0, 5, 2]], 3)"
    by code_simp+
  have 6: "eos_positions_of [0, 6, 2 :: byte] 2 = [2]"
    "pack_loop 4 (1 :: byte) ([], 0) (samples_of [0, 6, 2] 2) = Inr ([[0, 6, 2]], 3)"
    by code_simp+
  show "pack_raw s [0, 5, 2] = Inr (s\<lparr>leftover_tokens := [], tokens := [0, 5, 2]\<rparr>)"
    by (simp add: pack_raw_def assms 5)
  show "pack_raw s [0, 6, 2] = Inr (s\<lparr>leftover_tokens := [], tokens := [0, 6, 2]\<rparr>)"
    by (simp add: pack_raw_def assms 6)
qed

lemma second_advance_reverses:
  "padded_advance [''a.bin'' \<mapsto> header_bytes 3 @ [0, 5, 2], ''b.bin'' \<mapsto> header_bytes 3 @ [0, 6, 2]]
      reverse_order
      \<lparr>world_size = 2, rank = 0, files = [''a.bin'', ''b.bin''], batch_size = 8, local_batch_size = 4,
       next_shard = 1, pos = 0, tokens = [0, 5, 2],
       cls_id = 0, eos_id = 2, pad_id = 1, leftover_tokens = [], max_epochs = 1\<rparr>
    = Inr \<lparr>world_size = 2, rank = 0, files = [''b.bin'', ''a.bin''], batch_size = 8, local_batch_size = 4,
       next_shard = 2, pos = 0, tokens = [0, 6, 2],
       cls_id = 0, eos_id = 2, pad_id = 1, leftover_tokens = [], max_epochs = 1\<rparr>"
  by (simp add: padded_advance_def load_raw_def two_shards_b reshuffle_def reverse_order_def
        pack_one_sample)

theorem reshuffle_deterministic_and_gated_witness:
  "padded_advance [''a.bin'' \<mapsto> header_bytes 3 @ [0, 5, 2], ''b.bin'' \<mapsto> header_bytes 3 @ [0, 6, 2]]
      reverse_order
      \<lparr>world_size = 2, rank = 1, files = [''a.bin'', ''b.bin''], batch_size = 8, local_batch_size = 4,
       next_shard = 1, pos = 0, tokens = [0, 5, 2],
       cls_id = 0, eos_id = 2, pad_id = 1, leftover_tokens = [], max_epochs = 1\<rparr>
    = Inr \<lparr>world_size = 2, rank = 1, files = [''b.bin'', ''a.bin''], batch_size = 8, local_batch_size = 4,
       next_shard = 2, pos = 0, tokens = [0, 6, 2],
       cls_id = 0, eos_id = 2, pad_id = 1, leftover_tokens = [], max_epochs = 1\<rparr>
   \<and> [''b.bin'', ''a.bin''] = reverse_order 2 [''a.bin'', ''b.bin'']"
proof -
  let ?d = "[''a.bin'' \<mapsto> header_bytes 3 @ [0, 5, 2 :: byte], ''b.bin'' \<mapsto> header_bytes 3 @ [0, 6, 2]]"
  let ?s = "\<lparr>world_size = 2, rank = 0, files = [''a.bin'', ''b.bin''], batch_size = 8,
       local_batch_size = 4, next_shard = 1, pos = 0, tokens = [0, 5, 2 :: byte],
       cls_id = 0, eos_id = 2, pad_id = 1, leftover_tokens = [], max_epochs = 1\<rparr>"
  let ?s' = "\<lparr>world_size = 2, rank = 0, files = [''b.bin'', ''a.bin''], batch_size = 8,
       local_batch_size = 4, next_shard = 2, pos = 0, tokens = [0, 6, 2 :: byte],
       cls_id = 0, eos_id = 2, pad_id = 1, leftover_tokens = [], max_epochs = 1\<rparr>"
  have ev: "padded_advance ?d reverse_order ?s = Inr ?s'"
    by (rule second_advance_reverses)
  have lr: "load_raw ?d (?s\<lparr>pos := 0\<rparr>) = Inr ([0, 6, 2], ?s\<lparr>next_shard := 2\<rparr>)"
    by (simp add: load_raw_def two_shards_b)
  note t = reshuffle_deterministic_and_gated [of ?s ?s reverse_order ?d 1]
  from t ev
  have "padded_advance ?d reverse_order (?s\<lparr>rank := 1\<rparr>) = Inr (?s'\<lparr>rank := 1\<rparr>)"
    by blast
  then have a: "padded_advance ?d reverse_order
      \<lparr>world_size = 2, rank = 1, files = [''a.bin'', ''b.bin''], batch_size = 8, local_batch_size = 4,
       next_shard = 1, pos = 0, tokens = [0, 5, 2],
       cls_id = 0, eos_id = 2, pad_id = 1, leftover_tokens = [], max_epochs = 1\<rparr>
    = Inr \<lparr>world_size = 2, rank = 1, files = [''b.bin'', ''a.bin''], batch_size = 8, local_batch_size = 4,
       next_shard = 2, pos = 0, tokens = [0, 6, 2],
       cls_id = 0, eos_id = 2, pad_id = 1, leftover_tokens = [], max_epochs = 1\<rparr>"
    by simp
  from t ev
  have "case load_raw ?d (?s\<lparr>pos := 0\<rparr>) of
          Inl e \<Rightarrow> False
        | Inr (raw_tokens, s1) \<Rightarrow>
            next_shard ?s' = next_shard s1
            \<and> files ?s' =
                (if raw_tokens \<noteq> [] \<and> next_shard s1 mod length (files ?s) = 0
                 then reverse_order (next_shard s1) (files ?s) else files ?s)"
    by blast
  then have b: "[''b.bin'', ''a.bin''] = reverse_order 2 [''a.bin'', ''b.bin'']"
    unfolding lr by (simp add: numeral_2_eq_2)
  show ?thesis
    by (rule conjI [OF a b])
qed

text \<open>
  Claim C8 as stated, a reshuffle exactly when the shard counter is a multiple of the number
  of files, fails at the end of the stream. Two shards, one epoch: the constructor loads
  the first shard (counter 1), the next \<^verbatim>\<open>advance\<close> loads the second (counter 2) and
  shuffles, and the \<^verbatim>\<open>advance\<close> after it finds the epoch limit reached and nothing left
  over: the counter is still 2, a multiple of 2, but the call returns with an empty buffer
  before the shuffle, and the file list stays as it was.
\<close>

theorem reshuffle_skipped_at_end_of_stream:
  "DistributedPaddedDataLoader
      [''a.bin'' \<mapsto> header_bytes 3 @ [0, 5, 2], ''b.bin'' \<mapsto> header_bytes 3 @ [0, 6, 2]]
      reverse_order [''a.bin'', ''b.bin''] 8 0 2 0 2 1 1
    = Inr \<lparr>world_size = 2, rank = 0, files = [''a.bin'', ''b.bin''], batch_size = 8, local_batch_size = 4,
       next_shard = 1, pos = 0, tokens = [0, 5, 2],
       cls_id = 0, eos_id = 2, pad_id = 1, leftover_tokens = [], max_epochs = 1\<rparr>
   \<and> padded_advance
      [''a.bin'' \<mapsto> header_bytes 3 @ [0, 5, 2], ''b.bin'' \<mapsto> header_bytes 3 @ [0, 6, 2]]
      reverse_order
      \<lparr>world_size = 2, rank = 0, files = [''a.bin'', ''b.bin''], batch_size = 8, local_batch_size = 4,
       next_shard = 1, pos = 0, tokens = [0, 5, 2],
       cls_id = 0, eos_id = 2, pad_id = 1, leftover_tokens = [], max_epochs = 1\<rparr>
    = Inr \<lparr>world_size = 2, rank = 0, files = [''b.bin'', ''a.bin''], batch_size = 8, local_batch_size = 4,
       next_shard = 2, pos = 0, tokens = [0, 6, 2],
       cls_id = 0, eos_id = 2, pad_id = 1, leftover_tokens = [], max_epochs = 1\<rparr>
   \<and> padded_advance
      [''a.bin'' \<mapsto> header_bytes 3 @ [0, 5, 2], ''b.bin'' \<mapsto> header_bytes 3 @ [0, 6, 2]]
      reverse_order
      \<lparr>world_size = 2, rank = 0, files = [''b.bin'', ''a.bin''], batch_size = 8, local_batch_size = 4,
       next_shard = 2, pos = 0, tokens = [0, 6, 2],
       cls_id = 0, eos_id = 2, pad_id = 1, leftover_tokens = [], max_epochs = 1\<rparr>
    = Inr \<lparr>world_size = 2, rank = 0, files = [''b.bin'', ''a.bin''], batch_size = 8, local_batch_size = 4,
       next_shard = 2, pos = 0, tokens = [],
       cls_id = 0, eos_id = 2, pad_id = 1, leftover_tokens = [], max_epochs = 1\<rparr>
   \<and> (2 :: nat) mod length [''b.bin'', ''a.bin''] = 0
   \<and> reverse_order 2 [''b.bin'', ''a.bin''] \<noteq> [''b.bin'', ''a.bin'']"
proof -
  have c: "DistributedPaddedDataLoader
      [''a.bin'' \<mapsto> header_bytes 3 @ [0, 5, 2], ''b.bin'' \<mapsto> header_bytes 3 @ [0, 6, 2]]
      reverse_order [''a.bin'', ''b.bin''] 8 0 2 0 2 1 1
    = Inr \<lparr>world_size = 2, rank = 0, files = [''a.bin'', ''b.bin''], batch_size = 8, local_batch_size = 4,
       next_shard = 1, pos = 0, tokens = [0, 5, 2],
       cls_id = 0, eos_id = 2, pad_id = 1, leftover_tokens = [], max_epochs = 1\<rparr>"
    by (simp add: DistributedPaddedDataLoader_def reset_def padded_advance_def load_raw_def
          two_shards_a reshuffle_def pack_one_sample)
  have e: "padded_advance
      [''a.bin'' \<mapsto> header_bytes 3 @ [0, 5, 2], ''b.bin'' \<mapsto> header_bytes 3 @ [0, 6, 2]]
      reverse_order
      \<lparr>world_size = 2, rank = 0, files = [''b.bin'', ''a.bin''], batch_size = 8, local_batch_size = 4,
       next_shard = 2, pos = 0, tokens = [0, 6, 2],
       cls_id = 0, eos_id = 2, pad_id = 1, leftover_tokens = [], max_epochs = 1\<rparr>
    = Inr \<lparr>world_size = 2, rank = 0, files = [''b.bin'', ''a.bin''], batch_size = 8, local_batch_size = 4,
       next_shard = 2, pos = 0, tokens = [],
       cls_id = 0, eos_id = 2, pad_id = 1, leftover_tokens = [], max_epochs = 1\<rparr>"
    by (simp add: padded_advance_def load_raw_def numeral_2_eq_2)
  have r: "(2 :: nat) mod length [''b.bin'', ''a.bin''] = 0
      \<and> reverse_order 2 [''b.bin'', ''a.bin''] \<noteq> [''b.bin'', ''a.bin'']"
    by (simp add: reverse_order_def numeral_2_eq_2)
  from c second_advance_reverses e r show ?thesis by blast
qed

section \<open>Facts about the tokens that the packing keeps\<close>

lemma split_rows_nonpad:
  "split_rows lbs pad splits = Inr rows \<Longrightarrow>
     filter (\<lambda>t. t \<noteq> pad) (concat rows) = filter (\<lambda>t. t \<noteq> pad) (concat splits)"
proof (induction splits arbitrary: rows)
  case Nil
  then show ?case by simp
next
  case (Cons c rest)
  then obtain rows' where r: "split_rows lbs pad rest = Inr rows'"
      "rows = c # replicate (lbs - length c) pad # rows'"
    by (auto split: if_splits sum.splits)
  from Cons.IH [OF r(1)] r(2) show ?case by simp
qed

lemma concat_chunk: "chunk xs n = Inr splits \<Longrightarrow> concat splits = xs"
proof -
  assume a: "chunk xs n = Inr splits"
  then have n: "n \<noteq> 0" by (auto simp add: chunk_def split: if_splits)
  show ?thesis
  proof (cases "(length xs + n - 1) div n = 0")
    case True
    with n have "length xs + n - 1 < n" by (simp add: div_eq_0_iff)
    with n have "xs = []" by (cases xs) auto
    with a n True show ?thesis by (auto simp add: chunk_def Let_def)
  next
    case False
    with a n have "splits = split_size xs ((length xs + n - 1) div n)"
      by (auto simp add: chunk_def Let_def)
    then show ?thesis by (simp add: concat_split_size)
  qed
qed

lemma pack_step_nonpad:
  assumes "pack_step lbs pad (chunks, cur) sample = Inr (chunks', cur')"
  shows "filter (\<lambda>t. t \<noteq> pad) (concat chunks')
           = filter (\<lambda>t. t \<noteq> pad) (concat chunks) @ filter (\<lambda>t. t \<noteq> pad) sample"
proof (cases "lbs < length sample")
  case True
  with assms obtain splits rows pre where
    c: "chunk sample (length sample div lbs + 1) = Inr splits"
    and r: "split_rows lbs pad splits = Inr rows"
    and p: "chunks' = pre @ rows"
           "pre = chunks @ [replicate (lbs - cur) pad] \<or> pre = chunks"
    by (auto simp add: pack_step_def Let_def split: if_splits sum.splits)
  from p(2) have "filter (\<lambda>t. t \<noteq> pad) (concat pre) = filter (\<lambda>t. t \<noteq> pad) (concat chunks)"
    by auto
  with p(1) split_rows_nonpad [OF r] concat_chunk [OF c] show ?thesis by simp
next
  case False
  with assms have "chunks' = chunks @ [replicate (lbs - cur) pad] @ [sample] \<or> chunks' = chunks @ [sample]"
    by (auto simp add: pack_step_def Let_def split: if_splits)
  then show ?thesis by auto
qed

lemma pack_loop_nonpad:
  "pack_loop lbs pad st samples = Inr st' \<Longrightarrow>
     filter (\<lambda>t. t \<noteq> pad) (concat (fst st'))
       = filter (\<lambda>t. t \<noteq> pad) (concat (fst st)) @ filter (\<lambda>t. t \<noteq> pad) (concat samples)"
proof (induction samples arbitrary: st)
  case Nil
  then show ?case by simp
next
  case (Cons sample rest)
  then obtain st1 where s: "pack_step lbs pad st sample = Inr st1" "pack_loop lbs pad st1 rest = Inr st'"
    by (auto split: sum.splits)
  from s(1) have "filter (\<lambda>t. t \<noteq> pad) (concat (fst st1))
           = filter (\<lambda>t. t \<noteq> pad) (concat (fst st)) @ filter (\<lambda>t. t \<noteq> pad) sample"
    using pack_step_nonpad [of lbs pad "fst st" "snd st" sample "fst st1" "snd st1"] by simp
  with Cons.IH [OF s(2)] show ?case by simp
qed

text \<open>
  The packing inserts PAD tokens and moves nothing else: the working buffer followed by the
  new leftover holds the tokens of the combined buffer, in order, between the PAD tokens.
\<close>

lemma pack_raw_nonpad:
  assumes "pack_raw s raw = Inr s'"
  shows "filter (\<lambda>t. t \<noteq> pad_id s) (tokens s' @ leftover_tokens s')
           = filter (\<lambda>t. t \<noteq> pad_id s) raw"
proof -
  let ?ps = "eos_positions_of raw (eos_id s)"
  from assms obtain chunks cur where
    l: "pack_loop (local_batch_size s) (pad_id s) ([], 0) (samples_of raw (eos_id s)) = Inr (chunks, cur)"
    and e: "?ps \<noteq> []"
    and s': "s' = s\<lparr>leftover_tokens := drop (last ?ps + 1) raw, tokens := concat chunks\<rparr>"
    by (auto simp add: pack_raw_def Let_def split: sum.splits prod.splits if_splits)
  from pack_loop_nonpad [OF l]
  have c: "filter (\<lambda>t. t \<noteq> pad_id s) (concat chunks)
          = filter (\<lambda>t. t \<noteq> pad_id s) (take (last ?ps + 1) raw)"
    by (simp add: concat_samples_of [OF e])
  have "filter (\<lambda>t. t \<noteq> pad_id s) (tokens s' @ leftover_tokens s')
          = filter (\<lambda>t. t \<noteq> pad_id s) (concat chunks)
              @ filter (\<lambda>t. t \<noteq> pad_id s) (drop (last ?ps + 1) raw)"
    by (simp add: s')
  also have "\<dots> = filter (\<lambda>t. t \<noteq> pad_id s) (take (last ?ps + 1) raw)
              @ filter (\<lambda>t. t \<noteq> pad_id s) (drop (last ?ps + 1) raw)"
    by (simp only: c)
  also have "\<dots> = filter (\<lambda>t. t \<noteq> pad_id s) (take (last ?ps + 1) raw @ drop (last ?ps + 1) raw)"
    by (rule filter_append [symmetric])
  also have "\<dots> = filter (\<lambda>t. t \<noteq> pad_id s) raw"
    by (simp only: append_take_drop_id)
  finally show ?thesis .
qed

lemma pack_raw_frame:
  assumes "pack_raw s raw = Inr s'"
  shows "next_shard s' = next_shard s \<and> pos s' = pos s \<and> pad_id s' = pad_id s"
  using assms by (auto simp add: pack_raw_def Let_def split: sum.splits prod.splits if_splits)


lemma reshuffle_pad_id [simp]: "pad_id (reshuffle shuffle s) = pad_id s"
  by (simp add: reshuffle_def)

text \<open>
  \<^verbatim>\<open>reset\<close> on the padded loader: the counter is set to 0, the epoch gate of \<^verbatim>\<open>advance\<close>
  loads the first file of the list and puts the leftover in front of it.
\<close>

lemma reset_padded_advance:
  assumes "files s \<noteq> []" and "0 < max_epochs s"
    and "load_data_shard d (files s ! 0) = Inr payload"
  shows "reset (padded_advance d shuffle) s =
           (if leftover_tokens s @ payload = []
            then Inr (s\<lparr>pos := 0, next_shard := 1, leftover_tokens := [], tokens := []\<rparr>)
            else pack_raw (reshuffle shuffle (s\<lparr>pos := 0, next_shard := 1\<rparr>))
                   (leftover_tokens s @ payload))"
  using assms by (simp add: reset_def padded_advance_def load_raw_def)

lemma reset_nonpad:
  assumes "files s \<noteq> []" and "0 < max_epochs s"
    and "load_data_shard d (files s ! 0) = Inr payload"
    and "reset (padded_advance d shuffle) s = Inr s1"
  shows "filter (\<lambda>t. t \<noteq> pad_id s) (tokens s1 @ leftover_tokens s1)
           = filter (\<lambda>t. t \<noteq> pad_id s) (leftover_tokens s @ payload)"
proof (cases "leftover_tokens s @ payload = []")
  case True
  with assms(4) reset_padded_advance [OF assms(1-3), of shuffle] show ?thesis by auto
next
  case False
  from assms(4) have "pack_raw (reshuffle shuffle (s\<lparr>pos := 0, next_shard := 1\<rparr>))
      (leftover_tokens s @ payload) = Inr s1"
    unfolding reset_padded_advance [OF assms(1-3), of shuffle] by (simp only: False if_False)
  from pack_raw_nonpad [OF this] show ?thesis by simp
qed

lemma reset_frame:
  assumes "files s \<noteq> []" and "0 < max_epochs s"
    and "load_data_shard d (files s ! 0) = Inr payload"
    and "reset (padded_advance d shuffle) s = Inr s1"
  shows "next_shard s1 = 1 \<and> pos s1 = 0"
proof (cases "leftover_tokens s @ payload = []")
  case True
  with assms(4) reset_padded_advance [OF assms(1-3), of shuffle] show ?thesis by auto
next
  case False
  from assms(4) have "pack_raw (reshuffle shuffle (s\<lparr>pos := 0, next_shard := 1\<rparr>))
      (leftover_tokens s @ payload) = Inr s1"
    unfolding reset_padded_advance [OF assms(1-3), of shuffle] by (simp only: False if_False)
  from pack_raw_frame [OF this] show ?thesis by (simp add: reshuffle_def)
qed

text \<open>The constructor is \<^verbatim>\<open>reset\<close> on a loader with an empty leftover.\<close>

lemma fresh_loader_result:
  assumes "files s \<noteq> []" and "0 < max_epochs s"
    and "load_data_shard d (files s ! 0) = Inr payload"
    and "fresh_loader d shuffle s = Inr s2"
  shows "next_shard s2 = 1 \<and> pos s2 = 0
     \<and> filter (\<lambda>t. t \<noteq> pad_id s) (tokens s2 @ leftover_tokens s2)
           = filter (\<lambda>t. t \<noteq> pad_id s) payload"
proof -
  let ?r = "\<lparr>world_size = world_size s, rank = rank s, files = files s, batch_size = batch_size s,
       local_batch_size = batch_size s div world_size s, next_shard = 0, pos = 0, tokens = [],
       cls_id = cls_id s, eos_id = eos_id s, pad_id = pad_id s, leftover_tokens = [],
       max_epochs = max_epochs s\<rparr>"
  from assms(4) have c: "reset (padded_advance d shuffle) ?r = Inr s2"
    by (auto simp add: fresh_loader_def DistributedPaddedDataLoader_def split: if_splits)
  have f: "files ?r \<noteq> []" using assms(1) by simp
  have m: "0 < max_epochs ?r" using assms(2) by simp
  have l: "load_data_shard d (files ?r ! 0) = Inr payload" using assms(3) by simp
  from reset_frame [OF f m l c] reset_nonpad [OF f m l c] show ?thesis by simp
qed


section \<open>Claims about \<^verbatim>\<open>reset\<close> on the padded loader\<close>

text \<open>
  Claim C10 (\<^verbatim>\<open>reset\<close> on the padded loader keeps the leftover), as amended. For a loader
  with a file, an epoch limit of at least 1 and a first file that the reader loads:
  \<^verbatim>\<open>reset\<close> sets the counter to 0 and runs \<^verbatim>\<open>advance\<close>, which packs the old leftover followed
  by the payload of the first file, so the leftover is not cleared. After a \<^verbatim>\<open>reset\<close> that
  returns, the counter is 1, the cursor is 0, and the working buffer followed by the new
  leftover holds, between the PAD tokens, the tokens of the old leftover followed by those
  of the payload. A fresh loader built from the same arguments holds those of the payload
  alone. So when both return, the loader after \<^verbatim>\<open>reset\<close> differs from the fresh one whenever
  the old leftover holds a token that is not PAD.
\<close>

theorem reset_keeps_leftover:
  assumes "files s \<noteq> []" and "0 < max_epochs s"
    and "load_data_shard d (files s ! 0) = Inr payload"
  shows "reset (padded_advance d shuffle) s =
           (if leftover_tokens s @ payload = []
            then Inr (s\<lparr>pos := 0, next_shard := 1, leftover_tokens := [], tokens := []\<rparr>)
            else pack_raw (reshuffle shuffle (s\<lparr>pos := 0, next_shard := 1\<rparr>))
                   (leftover_tokens s @ payload))
     \<and> (\<forall>s1. reset (padded_advance d shuffle) s = Inr s1 \<longrightarrow>
           next_shard s1 = 1 \<and> pos s1 = 0
           \<and> filter (\<lambda>t. t \<noteq> pad_id s) (tokens s1 @ leftover_tokens s1)
               = filter (\<lambda>t. t \<noteq> pad_id s) (leftover_tokens s @ payload))
     \<and> (\<forall>s2. fresh_loader d shuffle s = Inr s2 \<longrightarrow>
           next_shard s2 = 1 \<and> pos s2 = 0
           \<and> filter (\<lambda>t. t \<noteq> pad_id s) (tokens s2 @ leftover_tokens s2)
               = filter (\<lambda>t. t \<noteq> pad_id s) payload)
     \<and> (\<forall>s1 s2. reset (padded_advance d shuffle) s = Inr s1
           \<and> fresh_loader d shuffle s = Inr s2
           \<and> (\<exists>t \<in> set (leftover_tokens s). t \<noteq> pad_id s)
           \<longrightarrow> tokens s1 @ leftover_tokens s1 \<noteq> tokens s2 @ leftover_tokens s2)"
proof -
  let ?np = "filter (\<lambda>t. t \<noteq> pad_id s)"
  note a = reset_padded_advance [OF assms, of shuffle]
  have b: "next_shard s1 = 1 \<and> pos s1 = 0
           \<and> ?np (tokens s1 @ leftover_tokens s1) = ?np (leftover_tokens s @ payload)"
    if "reset (padded_advance d shuffle) s = Inr s1" for s1
    using reset_frame [OF assms that] reset_nonpad [OF assms that] by simp
  have c: "next_shard s2 = 1 \<and> pos s2 = 0
           \<and> ?np (tokens s2 @ leftover_tokens s2) = ?np payload"
    if "fresh_loader d shuffle s = Inr s2" for s2
    using fresh_loader_result [OF assms that] .
  have e: "tokens s1 @ leftover_tokens s1 \<noteq> tokens s2 @ leftover_tokens s2"
    if r: "reset (padded_advance d shuffle) s = Inr s1"
      and f: "fresh_loader d shuffle s = Inr s2"
      and t: "\<exists>t \<in> set (leftover_tokens s). t \<noteq> pad_id s" for s1 s2
  proof
    assume "tokens s1 @ leftover_tokens s1 = tokens s2 @ leftover_tokens s2"
    then have "?np (tokens s1 @ leftover_tokens s1) = ?np (tokens s2 @ leftover_tokens s2)"
      by simp
    with b [OF r] c [OF f] have "?np (leftover_tokens s @ payload) = ?np payload" by simp
    then have "?np (leftover_tokens s) = []" by simp
    with t show False by (auto simp add: filter_empty_conv)
  qed
  from a b c e show ?thesis by blast
qed


lemma pack_with_leftover:
  assumes "local_batch_size s = 8" and "eos_id s = 2" and "pad_id s = 1"
  shows "pack_raw s [0, 5, 2, 0, 6] = Inr (s\<lparr>leftover_tokens := [0, 6], tokens := [0, 5, 2]\<rparr>)"
    and "pack_raw s [0, 6, 0, 5, 2, 0, 6]
           = Inr (s\<lparr>leftover_tokens := [0, 6], tokens := [0, 6, 0, 5, 2]\<rparr>)"
proof -
  have 1: "eos_positions_of [0, 5, 2, 0, 6 :: byte] 2 = [2]"
    "pack_loop 8 (1 :: byte) ([], 0) (samples_of [0, 5, 2, 0, 6] 2) = Inr ([[0, 5, 2]], 3)"
    by code_simp+
  have 2: "eos_positions_of [0, 6, 0, 5, 2, 0, 6 :: byte] 2 = [4]"
    "pack_loop 8 (1 :: byte) ([], 0) (samples_of [0, 6, 0, 5, 2, 0, 6] 2) = Inr ([[0, 6, 0, 5, 2]], 5)"
    by code_simp+
  show "pack_raw s [0, 5, 2, 0, 6] = Inr (s\<lparr>leftover_tokens := [0, 6], tokens := [0, 5, 2]\<rparr>)"
    by (simp add: pack_raw_def assms 1)
  show "pack_raw s [0, 6, 0, 5, 2, 0, 6]
           = Inr (s\<lparr>leftover_tokens := [0, 6], tokens := [0, 6, 0, 5, 2]\<rparr>)"
    by (simp add: pack_raw_def assms 2)
qed

lemma shard_with_tail:
  "load_data_shard [''a.bin'' \<mapsto> header_bytes 5 @ [0, 5, 2, 0, 6], ''b.bin'' \<mapsto> header_bytes 3 @ [0, 7, 2]]
     ''a.bin'' = Inr [0, 5, 2, 0, 6]"
  by (simp add: load_data_shard_header_bytes [where n = 5 and payload = "[0, 5, 2, 0, 6]"])

theorem reset_keeps_leftover_witness:
  "fresh_loader [''a.bin'' \<mapsto> header_bytes 5 @ [0, 5, 2, 0, 6], ''b.bin'' \<mapsto> header_bytes 3 @ [0, 7, 2]]
      reverse_order
      \<lparr>world_size = 1, rank = 0, files = [''a.bin'', ''b.bin''], batch_size = 8, local_batch_size = 8,
       next_shard = 1, pos = 0, tokens = [0, 5, 2],
       cls_id = 0, eos_id = 2, pad_id = 1, leftover_tokens = [0, 6], max_epochs = 1\<rparr>
    = Inr \<lparr>world_size = 1, rank = 0, files = [''a.bin'', ''b.bin''], batch_size = 8, local_batch_size = 8,
       next_shard = 1, pos = 0, tokens = [0, 5, 2],
       cls_id = 0, eos_id = 2, pad_id = 1, leftover_tokens = [0, 6], max_epochs = 1\<rparr>
   \<and> reset (padded_advance
        [''a.bin'' \<mapsto> header_bytes 5 @ [0, 5, 2, 0, 6], ''b.bin'' \<mapsto> header_bytes 3 @ [0, 7, 2]]
        reverse_order)
      \<lparr>world_size = 1, rank = 0, files = [''a.bin'', ''b.bin''], batch_size = 8, local_batch_size = 8,
       next_shard = 1, pos = 0, tokens = [0, 5, 2],
       cls_id = 0, eos_id = 2, pad_id = 1, leftover_tokens = [0, 6], max_epochs = 1\<rparr>
    = Inr \<lparr>world_size = 1, rank = 0, files = [''a.bin'', ''b.bin''], batch_size = 8, local_batch_size = 8,
       next_shard = 1, pos = 0, tokens = [0, 6, 0, 5, 2],
       cls_id = 0, eos_id = 2, pad_id = 1, leftover_tokens = [0, 6], max_epochs = 1\<rparr>
   \<and> [0, 6, 0, 5, 2] @ [0, 6] \<noteq> [0, 5, 2] @ [0, 6 :: byte]"
proof -
  let ?d = "[''a.bin'' \<mapsto> header_bytes 5 @ [0, 5, 2, 0, 6 :: byte], ''b.bin'' \<mapsto> header_bytes 3 @ [0, 7, 2]]"
  let ?s = "\<lparr>world_size = 1, rank = 0, files = [''a.bin'', ''b.bin''], batch_size = 8,
       local_batch_size = 8, next_shard = 1, pos = 0, tokens = [0, 5, 2 :: byte],
       cls_id = 0, eos_id = 2, pad_id = 1, leftover_tokens = [0, 6], max_epochs = 1\<rparr>"
  let ?s1 = "\<lparr>world_size = 1, rank = 0, files = [''a.bin'', ''b.bin''], batch_size = 8,
       local_batch_size = 8, next_shard = 1, pos = 0, tokens = [0, 6, 0, 5, 2 :: byte],
       cls_id = 0, eos_id = 2, pad_id = 1, leftover_tokens = [0, 6], max_epochs = 1\<rparr>"
  have f: "files ?s \<noteq> []" by simp
  have m: "0 < max_epochs ?s" by simp
  have l: "load_data_shard ?d (files ?s ! 0) = Inr [0, 5, 2, 0, 6]"
    by (simp add: shard_with_tail)
  note t = reset_keeps_leftover [OF f m l, of reverse_order]
  have fresh: "fresh_loader ?d reverse_order ?s = Inr ?s"
    by (simp add: fresh_loader_def DistributedPaddedDataLoader_def reset_def padded_advance_def
          load_raw_def shard_with_tail reshuffle_def pack_with_leftover)
  from t have "reset (padded_advance ?d reverse_order) ?s =
           (if leftover_tokens ?s @ [0, 5, 2, 0, 6] = []
            then Inr (?s\<lparr>pos := 0, next_shard := 1, leftover_tokens := [], tokens := []\<rparr>)
            else pack_raw (reshuffle reverse_order (?s\<lparr>pos := 0, next_shard := 1\<rparr>))
                   (leftover_tokens ?s @ [0, 5, 2, 0, 6]))"
    by (rule conjunct1)
  then have r: "reset (padded_advance ?d reverse_order) ?s = Inr ?s1"
    by (simp add: reshuffle_def pack_with_leftover)
  have "\<exists>t \<in> set (leftover_tokens ?s). t \<noteq> pad_id ?s" by simp
  with t r fresh have "tokens ?s1 @ leftover_tokens ?s1 \<noteq> tokens ?s @ leftover_tokens ?s"
    by blast
  then have n: "[0, 6, 0, 5, 2] @ [0, 6] \<noteq> [0, 5, 2] @ [0, 6 :: byte]"
    by simp
  show ?thesis
    by (rule conjI [OF fresh conjI [OF r n]])
qed

text \<open>
  Claim C10 as stated, a difference whenever the leftover is not empty, fails for a leftover
  of tokens with the value of PAD. The shard holds 1, 1, 0, 2, 1, the rows have 3 tokens,
  EOS is 2 and PAD is 1. The constructor packs the sample 1, 1, 0, 2 into a row of PAD and
  the two rows 1, 1, PAD and 0, 2, PAD, and keeps the leftover 1. A \<^verbatim>\<open>reset\<close> of this loader
  packs the sample 1, 1, 1, 0, 2 into a row of PAD and the two rows 1, 1, 1 and 0, 2, PAD,
  with the leftover 1 again: it is the fresh loader, although the leftover was not empty.
\<close>

lemma pack_pad_valued:
  assumes "local_batch_size s = 3" and "eos_id s = 2" and "pad_id s = 1"
  shows "pack_raw s [1, 1, 0, 2, 1]
           = Inr (s\<lparr>leftover_tokens := [1], tokens := [1, 1, 1, 1, 1, 1, 0, 2, 1]\<rparr>)"
    and "pack_raw s [1, 1, 1, 0, 2, 1]
           = Inr (s\<lparr>leftover_tokens := [1], tokens := [1, 1, 1, 1, 1, 1, 0, 2, 1]\<rparr>)"
proof -
  have 1: "eos_positions_of [1, 1, 0, 2, 1 :: byte] 2 = [3]"
    "pack_loop 3 (1 :: byte) ([], 0) (samples_of [1, 1, 0, 2, 1] 2)
       = Inr ([[1, 1, 1], [1, 1], [1], [0, 2], [1]], 0)"
    by code_simp+
  have 2: "eos_positions_of [1, 1, 1, 0, 2, 1 :: byte] 2 = [4]"
    "pack_loop 3 (1 :: byte) ([], 0) (samples_of [1, 1, 1, 0, 2, 1] 2)
       = Inr ([[1, 1, 1], [1, 1, 1], [], [0, 2], [1]], 0)"
    by code_simp+
  show "pack_raw s [1, 1, 0, 2, 1]
           = Inr (s\<lparr>leftover_tokens := [1], tokens := [1, 1, 1, 1, 1, 1, 0, 2, 1]\<rparr>)"
    by (simp add: pack_raw_def assms 1)
  show "pack_raw s [1, 1, 1, 0, 2, 1]
           = Inr (s\<lparr>leftover_tokens := [1], tokens := [1, 1, 1, 1, 1, 1, 0, 2, 1]\<rparr>)"
    by (simp add: pack_raw_def assms 2)
qed

lemma shard_with_pad_valued_tokens:
  "load_data_shard [''a.bin'' \<mapsto> header_bytes 5 @ [1, 1, 0, 2, 1], ''b.bin'' \<mapsto> header_bytes 3 @ [0, 7, 2]]
     ''a.bin'' = Inr [1, 1, 0, 2, 1]"
  by (simp add: load_data_shard_header_bytes [where n = 5 and payload = "[1, 1, 0, 2, 1]"])

theorem reset_can_equal_fresh:
  "DistributedPaddedDataLoader
      [''a.bin'' \<mapsto> header_bytes 5 @ [1, 1, 0, 2, 1], ''b.bin'' \<mapsto> header_bytes 3 @ [0, 7, 2]]
      reverse_order [''a.bin'', ''b.bin''] 3 0 1 0 2 1 1
    = Inr \<lparr>world_size = 1, rank = 0, files = [''a.bin'', ''b.bin''], batch_size = 3, local_batch_size = 3,
       next_shard = 1, pos = 0, tokens = [1, 1, 1, 1, 1, 1, 0, 2, 1],
       cls_id = 0, eos_id = 2, pad_id = 1, leftover_tokens = [1], max_epochs = 1\<rparr>
   \<and> [1 :: byte] \<noteq> []
   \<and> reset (padded_advance
        [''a.bin'' \<mapsto> header_bytes 5 @ [1, 1, 0, 2, 1], ''b.bin'' \<mapsto> header_bytes 3 @ [0, 7, 2]]
        reverse_order)
      \<lparr>world_size = 1, rank = 0, files = [''a.bin'', ''b.bin''], batch_size = 3, local_batch_size = 3,
       next_shard = 1, pos = 0, tokens = [1, 1, 1, 1, 1, 1, 0, 2, 1],
       cls_id = 0, eos_id = 2, pad_id = 1, leftover_tokens = [1], max_epochs = 1\<rparr>
    = Inr \<lparr>world_size = 1, rank = 0, files = [''a.bin'', ''b.bin''], batch_size = 3, local_batch_size = 3,
       next_shard = 1, pos = 0, tokens = [1, 1, 1, 1, 1, 1, 0, 2, 1],
       cls_id = 0, eos_id = 2, pad_id = 1, leftover_tokens = [1], max_epochs = 1\<rparr>"
  by (simp add: DistributedPaddedDataLoader_def reset_def padded_advance_def load_raw_def
        shard_with_pad_valued_tokens reshuffle_def pack_pad_valued)

end
